theory Spec2Isabelle
  imports Main "HOL-Library.Sublist"
begin

section \<open>Python strings\<close>

text \<open>
  Python \<open>str\<close> values are modelled as \<^typ>\<open>string\<close> (a list of characters) and
  restricted to ASCII: case conversion and white space are those of the ASCII range.
  Each function below is the \<open>str\<close> method of the same name, as the sources
  \<open>models.py\<close> and \<open>merger.py\<close> call it.
\<close>

definition ascii_lowercase :: string where
  "ascii_lowercase = ''abcdefghijklmnopqrstuvwxyz''"

definition ascii_uppercase :: string where
  "ascii_uppercase = ''ABCDEFGHIJKLMNOPQRSTUVWXYZ''"

definition char_upper :: "char \<Rightarrow> char" where
  "char_upper c = (case map_of (zip ascii_lowercase ascii_uppercase) c of None \<Rightarrow> c | Some u \<Rightarrow> u)"

definition char_lower :: "char \<Rightarrow> char" where
  "char_lower c = (case map_of (zip ascii_uppercase ascii_lowercase) c of None \<Rightarrow> c | Some l \<Rightarrow> l)"

text \<open>\<open>str.isspace\<close> on one ASCII character: tab, line feed, vertical tab, form feed,
  carriage return, the four separators \<open>0x1C\<close> to \<open>0x1F\<close>, and the space.\<close>

definition py_isspace :: "char \<Rightarrow> bool" where
  "py_isspace c = (c \<in> set [CHR 0x09, CHR 0x0A, CHR 0x0B, CHR 0x0C, CHR 0x0D,
                              CHR 0x1C, CHR 0x1D, CHR 0x1E, CHR 0x1F, CHR 0x20])"

definition py_isdigit :: "char \<Rightarrow> bool" where
  "py_isdigit c = (c \<in> set ''0123456789'')"

definition py_lower :: "string \<Rightarrow> string" where
  "py_lower s = map char_lower s"

fun py_capitalize :: "string \<Rightarrow> string" where
  "py_capitalize [] = []"
| "py_capitalize (c # cs) = char_upper c # map char_lower cs"

text \<open>\<open>sep.join(xs)\<close>.\<close>

fun py_join :: "string \<Rightarrow> string list \<Rightarrow> string" where
  "py_join sep [] = []"
| "py_join sep [x] = x"
| "py_join sep (x # y # ys) = x @ sep @ py_join sep (y # ys)"

text \<open>\<open>s.split(c)\<close> for a separator of one character: empty fields are kept.\<close>

fun py_split_char :: "char \<Rightarrow> string \<Rightarrow> string list" where
  "py_split_char sep [] = [[]]"
| "py_split_char sep (c # cs) =
     (if c = sep then [] # py_split_char sep cs
      else (case py_split_char sep cs of
              [] \<Rightarrow> [[c]]
            | w # ws \<Rightarrow> (c # w) # ws))"

text \<open>\<open>s.split()\<close>: the maximal runs of characters that are not white space.
  The first argument is the word read so far.\<close>

fun py_split_ws_from :: "string \<Rightarrow> string \<Rightarrow> string list" where
  "py_split_ws_from cur [] = (if cur = [] then [] else [cur])"
| "py_split_ws_from cur (c # cs) =
     (if py_isspace c
      then (if cur = [] then py_split_ws_from [] cs else cur # py_split_ws_from [] cs)
      else py_split_ws_from (cur @ [c]) cs)"

definition py_split_ws :: "string \<Rightarrow> string list" where
  "py_split_ws s = py_split_ws_from [] s"

definition py_rstrip :: "string \<Rightarrow> string" where
  "py_rstrip s = rev (dropWhile py_isspace (rev s))"

definition py_strip :: "string \<Rightarrow> string" where
  "py_strip s = py_rstrip (dropWhile py_isspace s)"

text \<open>\<open>sub in s\<close>.\<close>

fun py_contains :: "string \<Rightarrow> string \<Rightarrow> bool" where
  "py_contains sub [] = (sub = [])"
| "py_contains sub (c # cs) = (prefix sub (c # cs) \<or> py_contains sub cs)"

text \<open>\<open>s.split(sep)[0]\<close> for a non-empty \<open>sep\<close>: the text before the first
  occurrence of \<open>sep\<close>, all of \<open>s\<close> when there is none.\<close>

fun py_before_first :: "string \<Rightarrow> string \<Rightarrow> string" where
  "py_before_first sep [] = []"
| "py_before_first sep (c # cs) =
     (if prefix sep (c # cs) then [] else c # py_before_first sep cs)"

text \<open>\<open>s.replace(old, new)\<close>: every occurrence, leftmost first, not overlapping.
  With an empty \<open>old\<close> Python puts \<open>new\<close> before every character and at the end.\<close>

function py_replace :: "string \<Rightarrow> string \<Rightarrow> string \<Rightarrow> string" where
  "py_replace old new [] = (if old = [] then new else [])"
| "py_replace old new (c # cs) =
     (if old = [] then new @ c # py_replace old new cs
      else if prefix old (c # cs) then new @ py_replace old new (drop (length old) (c # cs))
      else c # py_replace old new cs)"
  by pat_completeness auto
termination
  by (relation "measure (\<lambda>(old, new, s). length s)") auto

text \<open>
  \<open>re.search(r'\(as of ([\d\-T:\.]+)\)', s)\<close>: the group of the leftmost match.
  The class \<open>[\d\-T:\.]\<close> is greedy and does not contain the closing bracket, so at a
  given start the pattern matches exactly when the longest run of class characters is
  non-empty and followed by \<open>)\<close>: a shorter run is followed by a class character.
\<close>

definition iso_char :: "char \<Rightarrow> bool" where
  "iso_char c = (py_isdigit c \<or> c \<in> set ''-T:.'')"

definition match_as_of :: "string \<Rightarrow> string option" where
  "match_as_of s =
     (if prefix ''(as of '' s then
        (let rest = drop 7 s; g = takeWhile iso_char rest in
         if g \<noteq> [] \<and> prefix '')'' (dropWhile iso_char rest) then Some g else None)
      else None)"

fun search_as_of :: "string \<Rightarrow> string option" where
  "search_as_of [] = None"
| "search_as_of (c # cs) =
     (case match_as_of (c # cs) of
        Some g \<Rightarrow> Some g
      | None \<Rightarrow> search_as_of cs)"

section \<open>The data model\<close>

subsection \<open>Routes (\<open>models.py\<close>)\<close>

text \<open>An opaque JSON value, for the parts of a document the engine never reads.\<close>

datatype json =
    JNull
  | JBool bool
  | JNum int
  | JStr string
  | JArr "json list"
  | JObj "(string \<times> json) list"

datatype http_method = GET | POST | PUT | PATCH | DELETE | OPTIONS | HEAD

text \<open>\<open>HttpMethod.value\<close>.\<close>

fun method_value :: "http_method \<Rightarrow> string" where
  "method_value GET = ''GET''"
| "method_value POST = ''POST''"
| "method_value PUT = ''PUT''"
| "method_value PATCH = ''PATCH''"
| "method_value DELETE = ''DELETE''"
| "method_value OPTIONS = ''OPTIONS''"
| "method_value HEAD = ''HEAD''"

text \<open>Instants (\<open>datetime\<close> values without a time zone) are counted in microseconds on
  one time line; \<open>timedelta(days=d)\<close> is \<open>d * day_us\<close>.\<close>

definition day_us :: int where
  "day_us = 86400000000"

record route_schema =
  schema_body :: "json option"
  schema_querystring :: "json option"
  schema_params :: "json option"
  schema_headers :: "json option"
  schema_response :: "(int \<times> (string \<times> json) list) list option"

record rate_limit_config =
  rate_max :: int
  time_window :: string

record route_metadata =
  file_path :: string
  file_name :: string
  line_number :: int
  is_protected :: bool
  rate_limit :: "rate_limit_config option"
  extracted_at :: int

record route =
  r_method :: http_method
  r_path :: string
  full_path :: string
  handler_name :: string
  r_description :: "string option"
  r_schema :: "route_schema option"
  r_metadata :: "route_metadata option"

record sync_result =
  routes_added :: "route list"
  routes_updated :: "route list"
  routes_deprecated :: "string list"
  routes_removed :: "string list"
  errors :: "string list"
  synced_at :: int

subsection \<open>The collection document\<close>

text \<open>
  A collection is the JSON document the merger receives as nested \<open>dict\<close>s and
  \<open>list\<close>s. A key that the code looks up with \<open>in\<close> or \<open>.get\<close> is an \<open>option\<close>
  field (\<open>None\<close>: the key is absent). Where the code tests the type of a value
  (\<open>isinstance\<close>), the alternatives are constructors. Every other value has the type
  the collection format gives it: a description and a method are strings, the path
  segments of a URL object are strings, items and events are objects.
\<close>

datatype url_path =
    PathList "string list"
  | PathStr string

datatype url =
    UrlStr string
  | UrlObj (url_raw: "json option") (url_host: "json option") (url_path: "url_path option")
  | UrlOther

datatype request =
  Request (rq_method: "string option") (rq_url: "url option")
          (rq_description: "string option") (rq_header: "json option")

datatype event =
  Event (ev_listen: "string option") (ev_script: "json option")

text \<open>One node of the tree: the keys \<open>name\<close>, \<open>request\<close>, \<open>item\<close>, \<open>event\<close> and
  \<open>response\<close> of an item \<open>dict\<close>. A folder has \<open>item\<close>, a request has \<open>request\<close>;
  the code tests the two keys independently of each other.\<close>

datatype item =
  Item (item_name: "string option") (item_request: "request option")
       (item_children: "item list option") (item_event: "event list option")
       (item_response: "json option")

datatype info_val =
    InfoObj "(string \<times> json) list"
  | InfoOther json

datatype items_val =
    ItemList "item list"
  | ItemsOther json

record collection =
  coll_info :: "info_val option"
  coll_item :: "items_val option"
  coll_rest :: "(string \<times> json) list"

subsection \<open>Exceptions, the clock and the ISO-8601 codec\<close>

datatype exn =
    ValidationError string
  | KeyError string
  | TypeError string

text \<open>\<open>raise MergerError(...) from e\<close>: the cause \<open>e\<close> is kept.\<close>

datatype merger_error = MergerError exn

text \<open>The result of \<open>datetime.fromisoformat\<close>: a \<open>ValueError\<close>, an instant without a
  time zone, or one with a UTC offset (comparing that with \<open>datetime.utcnow()\<close> raises
  \<open>TypeError\<close>).\<close>

datatype iso_result = IsoValueError | IsoNaive int | IsoAware

text \<open>
  What the merger takes from the standard library: \<open>utcnow k\<close> is what the \<open>k\<close>-th call
  of \<open>datetime.utcnow()\<close> within one \<open>merge\<close> returns, \<open>isoformat\<close> and
  \<open>fromisoformat\<close> are the methods of \<open>datetime\<close>.
\<close>

record env =
  utcnow :: "nat \<Rightarrow> int"
  isoformat :: "int \<Rightarrow> string"
  fromisoformat :: "string \<Rightarrow> iso_result"

text \<open>The calls \<open>logger.debug\<close> of the expiry pass.\<close>

datatype log_event = RemovedOldDeprecated string

record collection_merger =
  deprecation_days :: int

section \<open>Naming and grouping (\<open>models.py\<close>)\<close>

definition unique_id :: "route \<Rightarrow> string" where
  "unique_id r = method_value (r_method r) @ '':'' @ full_path r"

definition folder_name :: "route \<Rightarrow> string" where
  "folder_name r =
     (case r_metadata r of
        None \<Rightarrow> ''Routes''
      | Some md \<Rightarrow>
          (let name = py_replace ''.js'' '''' (py_replace ''.ts'' '''' (file_name md));
               words = py_split_ws (py_replace ''_'' '' '' (py_replace ''-'' '' '' name))
           in py_join '' '' (map py_capitalize words)))"

definition path_parts :: "route \<Rightarrow> string list" where
  "path_parts r = filter (\<lambda>p. p \<noteq> [] \<and> p \<noteq> ''api'') (py_split_char CHR ''/'' (full_path r))"

definition method_prefix :: "route \<Rightarrow> string" where
  "method_prefix r =
     (case r_method r of
        GET \<Rightarrow> ''Get''
      | POST \<Rightarrow> (if length (path_parts r) = 1 then ''Create'' else ''Generate'')
      | PUT \<Rightarrow> ''Update''
      | PATCH \<Rightarrow> ''Update''
      | DELETE \<Rightarrow> ''Delete''
      | OPTIONS \<Rightarrow> method_value (r_method r)
      | HEAD \<Rightarrow> method_value (r_method r))"

definition readable_part :: "string \<Rightarrow> string" where
  "readable_part part =
     (let part' = (if prefix '':'' part then ''{'' @ drop 1 part @ ''}'' else part);
          words = py_split_ws (py_replace ''_'' '' '' (py_replace ''-'' '' '' part'))
      in py_join '' '' (map py_capitalize words))"

definition request_name :: "route \<Rightarrow> string" where
  "request_name r =
     (if path_parts r = [] then method_value (r_method r) @ '' Root''
      else
        (let name = py_join '' '' (map readable_part (path_parts r)) in
         if py_contains ''health'' (py_lower name) then ''Health Check''
         else if py_contains ''verify'' (py_lower name)
           then ''Verify '' @ py_strip (py_replace ''Verify'' '''' name)
         else method_prefix r @ '' '' @ name))"

text \<open>\<open>SyncResult()\<close> and \<open>SyncResult.has_changes\<close>.\<close>

definition new_sync_result :: "int \<Rightarrow> sync_result" where
  "new_sync_result now =
     \<lparr>routes_added = [], routes_updated = [], routes_deprecated = [],
      routes_removed = [], errors = [], synced_at = now\<rparr>"

definition has_changes :: "sync_result \<Rightarrow> bool" where
  "has_changes res =
     (length (routes_added res) > 0 \<or> length (routes_updated res) > 0
      \<or> length (routes_deprecated res) > 0 \<or> length (routes_removed res) > 0)"

section \<open>The hook generator (\<open>test_generator.py\<close>)\<close>

definition generate_structure_tests :: "string list" where
  "generate_structure_tests =
     [''pm.test(\"Response has correct structure\", function () {'',
      ''    var jsonData = pm.response.json();'',
      ''    pm.expect(jsonData).to.be.an(\"object\");'',
      ''});'',
      '''']"

definition generate_post_tests :: "route \<Rightarrow> string list" where
  "generate_post_tests r =
     (if py_contains ''token'' (py_lower (r_path r)) then
        [''pm.test(\"Response contains token\", function () {'',
         ''    var jsonData = pm.response.json();'',
         ''    pm.expect(jsonData).to.have.property(\"token\");'',
         ''});'',
         '''',
         ''// Save token to collection variable'',
         ''if (pm.response.code === 200) {'',
         ''    var jsonData = pm.response.json();'',
         ''    pm.collectionVariables.set(\"jwtToken\", jsonData.token);'',
         ''}'',
         '''']
      else
        [''pm.test(\"Resource created successfully\", function () {'',
         ''    pm.expect(pm.response.code).to.be.oneOf([200, 201]);'',
         ''});'',
         ''''])"

definition generate_get_tests :: "route \<Rightarrow> string list" where
  "generate_get_tests r =
     (if py_contains ''health'' (py_lower (r_path r)) then
        [''pm.test(\"Service is healthy\", function () {'',
         ''    var jsonData = pm.response.json();'',
         ''    pm.expect(jsonData.status).to.eql(\"ok\");'',
         ''});'',
         '''']
      else [])"

text \<open>\<open>route.schema and route.schema.response\<close>, then \<open>.get(200)\<close>, each tested for
  truth: the schema is there, its response table is there and not empty, and the entry
  for status 200 is there and not an empty \<open>dict\<close>.\<close>

definition has_success_schema :: "route \<Rightarrow> bool" where
  "has_success_schema r =
     (case r_schema r of
        None \<Rightarrow> False
      | Some sc \<Rightarrow>
          (case schema_response sc of
             None \<Rightarrow> False
           | Some resp \<Rightarrow>
               resp \<noteq> [] \<and> (case map_of resp 200 of None \<Rightarrow> False | Some s \<Rightarrow> s \<noteq> [])))"

definition generate_test_script :: "route \<Rightarrow> string list" where
  "generate_test_script r =
     [''pm.test(\"Status code is 200\", function () {'',
      ''    pm.response.to.have.status(200);'',
      ''});'',
      '''']
     @ (if has_success_schema r then generate_structure_tests else [])
     @ (if r_method r = POST then generate_post_tests r
        else if r_method r = GET then generate_get_tests r
        else [])"

definition generate_prerequest_auth_script :: "string list" where
  "generate_prerequest_auth_script =
     [''// Auto-generated: Add JWT authorization header'',
      ''const token = pm.collectionVariables.get(\"jwtToken\");'',
      '''',
      ''if (token) {'',
      ''    pm.request.headers.add({'',
      ''        key: \"Authorization\",'',
      ''        value: `Bearer ${token}`'',
      ''    });'',
      ''} else {'',
      ''    console.warn(\"JWT token not found. Generate token first.\");'',
      ''}'']"

section \<open>Validation (\<open>validators.py\<close>)\<close>

definition validate_postman_collection :: "collection \<Rightarrow> exn + unit" where
  "validate_postman_collection data =
     (case coll_info data of
        None \<Rightarrow> Inl (ValidationError ''Collection missing 'info' field'')
      | Some info \<Rightarrow>
          (case coll_item data of
             None \<Rightarrow> Inl (ValidationError ''Collection missing 'item' field'')
           | Some items \<Rightarrow>
               (case info of
                  InfoOther j \<Rightarrow> Inl (ValidationError ''Collection 'info' must be an object'')
                | InfoObj kvs \<Rightarrow>
                    (if map_of kvs ''name'' = None
                     then Inl (ValidationError ''Collection info missing 'name' field'')
                     else (case items of
                             ItemsOther j \<Rightarrow> Inl (ValidationError ''Collection 'item' must be an array'')
                           | ItemList its \<Rightarrow> Inr ())))))"

section \<open>The merger (\<open>merger.py\<close>)\<close>

subsection \<open>References into the document\<close>

text \<open>
  The index of \<open>_index_requests\<close> holds references to the item \<open>dict\<close>s of the tree, and
  \<open>_update_request\<close> and \<open>_mark_deprecated\<close> mutate an item through such a reference.
  A document read from JSON shares no object between two places, so a reference is
  modelled by the place of the item: the list of child positions from the top-level list
  down to the item. The merger only appends to item lists between indexing and the
  expiry pass, so a place keeps denoting the same object.
\<close>

type_synonym item_ref = "nat list"

fun set_children :: "item \<Rightarrow> item list \<Rightarrow> item" where
  "set_children (Item n rq cs ev resp) cs' = Item n rq (Some cs') ev resp"

fun set_request :: "item \<Rightarrow> request \<Rightarrow> item" where
  "set_request (Item n rq cs ev resp) rq' = Item n (Some rq') cs ev resp"

fun set_event :: "item \<Rightarrow> event list \<Rightarrow> item" where
  "set_event (Item n rq cs ev resp) ev' = Item n rq cs (Some ev') resp"

fun get_item :: "item list \<Rightarrow> item_ref \<Rightarrow> item option" where
  "get_item its [] = None"
| "get_item its [i] = (if i < length its then Some (its ! i) else None)"
| "get_item its (i # j # p) =
     (if i < length its then
        (case item_children (its ! i) of
           None \<Rightarrow> None
         | Some cs \<Rightarrow> get_item cs (j # p))
      else None)"

text \<open>The document after the item at a place has been mutated by \<open>f\<close>.\<close>

fun upd_item :: "(item \<Rightarrow> item) \<Rightarrow> item_ref \<Rightarrow> item list \<Rightarrow> item list" where
  "upd_item f [] its = its"
| "upd_item f [i] its = (if i < length its then its[i := f (its ! i)] else its)"
| "upd_item f (i # j # p) its =
     (if i < length its then
        (case item_children (its ! i) of
           None \<Rightarrow> its
         | Some cs \<Rightarrow> its[i := set_children (its ! i) (upd_item f (j # p) cs)])
      else its)"

subsection \<open>\<open>_extract_path\<close> and \<open>_build_url\<close>\<close>

fun extract_path :: "url \<Rightarrow> string" where
  "extract_path (UrlStr s) = s"
| "extract_path (UrlObj raw host None) = ''/'' @ py_join ''/'' []"
| "extract_path (UrlObj raw host (Some (PathList parts))) = ''/'' @ py_join ''/'' parts"
| "extract_path (UrlObj raw host (Some (PathStr s))) = s"
| "extract_path UrlOther = []"

definition build_url :: "string \<Rightarrow> url" where
  "build_url path =
     (let parts = filter (\<lambda>p. p \<noteq> []) (py_split_char CHR ''/'' path) in
      UrlObj (Some (JStr (''{{baseUrl}}'' @ path)))
             (Some (JArr [JStr ''{{baseUrl}}'']))
             (Some (PathList parts)))"

text \<open>\<open>item["request"].get("url", {})\<close>: an absent URL is the empty \<open>dict\<close>.\<close>

definition url_or_empty :: "request \<Rightarrow> url" where
  "url_or_empty rq = (case rq_url rq of None \<Rightarrow> UrlObj None None None | Some u \<Rightarrow> u)"

text \<open>\<open>method = item["request"]["method"]\<close>, the path, and
  \<open>unique_id = f"{method}:{path}"\<close>, as \<open>_index_requests\<close> and the expiry pass compute
  it; the subscript raises \<open>KeyError\<close> when the request has no method.\<close>

definition request_unique_id :: "request \<Rightarrow> exn + string" where
  "request_unique_id rq =
     (case rq_method rq of
        None \<Rightarrow> Inl (KeyError ''method'')
      | Some m \<Rightarrow> Inr (m @ '':'' @ extract_path (url_or_empty rq)))"

subsection \<open>\<open>_index_requests\<close>\<close>

type_synonym index = "(string \<times> item_ref) list"

text \<open>
  The \<open>dict\<close> \<open>index\<close> is an association list in insertion order (the order in which
  \<open>_mark_deprecated\<close> iterates over it). \<open>index_items pre k items index\<close> is the inner
  function \<open>index_items\<close> run on the items that stand at positions \<open>k\<close>, \<open>k + 1\<close>, ...
  of the list whose place is \<open>pre\<close>.
\<close>

function index_items :: "item_ref \<Rightarrow> nat \<Rightarrow> item list \<Rightarrow> index \<Rightarrow> exn + index" where
  "index_items pre k [] idx = Inr idx"
| "index_items pre k (it # rest) idx =
     (case (case item_request it of
              None \<Rightarrow> Inr idx
            | Some rq \<Rightarrow>
                (case request_unique_id rq of
                   Inl e \<Rightarrow> Inl e
                 | Inr uid \<Rightarrow>
                     Inr (if map_of idx uid = None then idx @ [(uid, pre @ [k])] else idx))) of
        Inl e \<Rightarrow> Inl e
      | Inr idx1 \<Rightarrow>
          (case (case item_children it of
                   None \<Rightarrow> Inr idx1
                 | Some cs \<Rightarrow> index_items (pre @ [k]) 0 cs idx1) of
             Inl e \<Rightarrow> Inl e
           | Inr idx2 \<Rightarrow> index_items pre (Suc k) rest idx2))"
  by pat_completeness auto
termination
proof (relation "measure (\<lambda>(pre, k, items, idx). size_list size items)")
  fix it :: item and rest :: "item list" and cs :: "item list"
  assume "item_children it = Some cs"
  then have "size_list size cs < size it"
    by (cases it) simp
  then show "((pre @ [k], 0, cs, idx1), (pre, k, it # rest, idx)) \<in>
      measure (\<lambda>(pre, k, items, idx). size_list size items)" for pre k idx idx1
    by simp
qed simp_all

definition index_requests :: "item list \<Rightarrow> exn + index" where
  "index_requests items = index_items [] 0 items []"

subsection \<open>\<open>_organize_by_folder\<close> and \<open>_ensure_folders\<close>\<close>

fun organize_loop :: "(string \<times> route list) list \<Rightarrow> route list \<Rightarrow> (string \<times> route list) list" where
  "organize_loop folders [] = folders"
| "organize_loop folders (r # rs) =
     (let folder = folder_name r;
          folders1 = (if map_of folders folder = None then folders @ [(folder, [])] else folders)
      in organize_loop (map (\<lambda>(k, v). if k = folder then (k, v @ [r]) else (k, v)) folders1) rs)"

definition organize_by_folder :: "route list \<Rightarrow> (string \<times> route list) list" where
  "organize_by_folder routes = organize_loop [] routes"

text \<open>The keys of the \<open>dict\<close> comprehension \<open>existing_folders\<close>: \<open>item["name"]\<close> of
  every top-level item that has the key \<open>item\<close>; the subscript raises \<open>KeyError\<close>.\<close>

fun existing_folders :: "item list \<Rightarrow> exn + string list" where
  "existing_folders [] = Inr []"
| "existing_folders (it # rest) =
     (if item_children it \<noteq> None then
        (case item_name it of
           None \<Rightarrow> Inl (KeyError ''name'')
         | Some n \<Rightarrow> (case existing_folders rest of Inl e \<Rightarrow> Inl e | Inr ns \<Rightarrow> Inr (n # ns)))
      else existing_folders rest)"

definition new_folder :: "string \<Rightarrow> item" where
  "new_folder n = Item (Some n) None (Some []) None None"

fun ensure_loop :: "string list \<Rightarrow> string list \<Rightarrow> item list \<Rightarrow> item list" where
  "ensure_loop existing [] items = items"
| "ensure_loop existing (n # ns) items =
     ensure_loop existing ns (if n \<notin> set existing then items @ [new_folder n] else items)"

definition ensure_folders :: "item list \<Rightarrow> string list \<Rightarrow> exn + item list" where
  "ensure_folders items folder_names =
     (case existing_folders items of
        Inl e \<Rightarrow> Inl e
      | Inr existing \<Rightarrow> Inr (ensure_loop existing folder_names items))"

subsection \<open>\<open>_ensure_auth_prerequest\<close>, \<open>_update_request\<close>, \<open>_add_request\<close>\<close>

definition script_event :: "string \<Rightarrow> string list \<Rightarrow> event" where
  "script_event listen lines =
     Event (Some listen)
           (Some (JObj [(''exec'', JArr (map JStr lines)), (''type'', JStr ''text/javascript'')]))"

definition ensure_auth_prerequest :: "item \<Rightarrow> item" where
  "ensure_auth_prerequest it =
     (let events = (case item_event it of None \<Rightarrow> [] | Some es \<Rightarrow> es) in
      if list_ex (\<lambda>e. ev_listen e = Some ''prerequest'') events
      then set_event it events
      else set_event it (events @ [script_event ''prerequest'' generate_prerequest_auth_script]))"

text \<open>\<open>route.metadata and route.metadata.is_protected\<close>.\<close>

definition route_protected :: "route \<Rightarrow> bool" where
  "route_protected r = (case r_metadata r of None \<Rightarrow> False | Some md \<Rightarrow> is_protected md)"

text \<open>A description that is there and not empty (\<open>route.description\<close> tested for truth).\<close>

definition route_description :: "route \<Rightarrow> string option" where
  "route_description r =
     (case r_description r of None \<Rightarrow> None | Some d \<Rightarrow> if d = [] then None else Some d)"

definition sync_note :: "env \<Rightarrow> nat \<Rightarrow> string" where
  "sync_note ev t = [CHR 0x0A, CHR 0x0A] @ ''_Last synced: '' @ isoformat ev (utcnow ev t) @ ''_''"

text \<open>\<open>_update_request\<close> reads the clock once, at tick \<open>t\<close>. When the item has no
  \<open>request\<close>, the code writes into a fresh \<open>dict\<close> that is dropped.\<close>

definition update_request :: "env \<Rightarrow> nat \<Rightarrow> route \<Rightarrow> item \<Rightarrow> item" where
  "update_request ev t r it =
     (let it1 =
        (case item_request it of
           None \<Rightarrow> it
         | Some rq \<Rightarrow>
             (let current_desc = (case rq_description rq of None \<Rightarrow> [] | Some d \<Rightarrow> d);
                  base_desc = (if py_contains ''_Last synced:'' current_desc
                               then py_rstrip (py_before_first ''_Last synced:'' current_desc)
                               else current_desc);
                  base_desc1 = (case route_description r of
                                  None \<Rightarrow> base_desc
                                | Some d \<Rightarrow> if base_desc = [] then d else base_desc)
              in set_request it
                   (Request (Some (method_value (r_method r)))
                            (Some (build_url (full_path r)))
                            (Some (base_desc1 @ sync_note ev t))
                            (rq_header rq))))
      in if route_protected r then ensure_auth_prerequest it1 else it1)"

text \<open>The position of the first top-level item with the given name and the key
  \<open>item\<close>.\<close>

fun find_folder :: "string \<Rightarrow> item list \<Rightarrow> nat option" where
  "find_folder n [] = None"
| "find_folder n (it # rest) =
     (if item_name it = Some n \<and> item_children it \<noteq> None then Some 0
      else map_option Suc (find_folder n rest))"

text \<open>The request item \<open>_add_request\<close> builds; the clock is read only when the route
  has no description.\<close>

definition new_request_item :: "env \<Rightarrow> nat \<Rightarrow> route \<Rightarrow> item" where
  "new_request_item ev t r =
     (let desc = (case route_description r of
                    Some d \<Rightarrow> d
                  | None \<Rightarrow> method_value (r_method r) @ '' '' @ full_path r @ sync_note ev t);
          test_script = generate_test_script r;
          it = Item (Some (request_name r))
                    (Some (Request (Some (method_value (r_method r)))
                                   (Some (build_url (full_path r)))
                                   (Some desc)
                                   (Some (JArr []))))
                    None
                    (Some (if test_script \<noteq> [] then [script_event ''test'' test_script] else []))
                    (Some (JArr []))
      in if route_protected r then ensure_auth_prerequest it else it)"

definition append_child :: "item \<Rightarrow> item \<Rightarrow> item" where
  "append_child new folder =
     (case item_children folder of
        None \<Rightarrow> folder
      | Some cs \<Rightarrow> set_children folder (cs @ [new]))"

definition add_request :: "env \<Rightarrow> nat \<Rightarrow> item list \<Rightarrow> route \<Rightarrow> item list \<times> nat" where
  "add_request ev t items r =
     (let (items1, i) =
            (case find_folder (folder_name r) items of
               Some i \<Rightarrow> (items, i)
             | None \<Rightarrow> (items @ [new_folder (folder_name r)], length items))
      in (items1[i := append_child (new_request_item ev t r) (items1 ! i)],
          (if route_description r = None then Suc t else t)))"

subsection \<open>The loop over the routes\<close>

text \<open>The state of the loop: the top-level item list, the number of clock readings made
  so far, and the result under construction.\<close>

fun process_routes ::
  "env \<Rightarrow> index \<Rightarrow> route list \<Rightarrow> item list \<times> nat \<times> sync_result \<Rightarrow> item list \<times> nat \<times> sync_result" where
  "process_routes ev idx [] st = st"
| "process_routes ev idx (r # rs) (items, t, res) =
     (case map_of idx (unique_id r) of
        Some p \<Rightarrow>
          process_routes ev idx rs
            (upd_item (update_request ev t r) p items, Suc t,
             res\<lparr>routes_updated := routes_updated res @ [r]\<rparr>)
      | None \<Rightarrow>
          (case add_request ev t items r of
             (items1, t1) \<Rightarrow>
               process_routes ev idx rs (items1, t1, res\<lparr>routes_added := routes_added res @ [r]\<rparr>)))"

subsection \<open>\<open>_mark_deprecated\<close>\<close>

definition deprecated_marker :: string where
  "deprecated_marker = ''**DEPRECATED**''"

definition request_description :: "item \<Rightarrow> string" where
  "request_description it =
     (case item_request it of
        None \<Rightarrow> []
      | Some rq \<Rightarrow> (case rq_description rq of None \<Rightarrow> [] | Some d \<Rightarrow> d))"

definition mark_item :: "env \<Rightarrow> nat \<Rightarrow> item \<Rightarrow> item" where
  "mark_item ev t it =
     (case item_request it of
        None \<Rightarrow> it
      | Some rq \<Rightarrow>
          set_request it
            (Request (rq_method rq) (rq_url rq)
               (Some (''**DEPRECATED** (as of '' @ isoformat ev (utcnow ev t) @ '')''
                      @ [CHR 0x0A, CHR 0x0A] @ request_description it))
               (rq_header rq)))"

text \<open>The loop over \<open>existing_requests.items()\<close>; \<open>current_route_ids\<close> is a set, given
  here by the list of its elements.\<close>

fun mark_deprecated ::
  "env \<Rightarrow> string list \<Rightarrow> index \<Rightarrow> item list \<times> nat \<times> string list \<Rightarrow> item list \<times> nat \<times> string list" where
  "mark_deprecated ev route_ids [] st = st"
| "mark_deprecated ev route_ids ((uid, p) # rest) (items, t, deprecated) =
     (if uid \<notin> set route_ids then
        (case get_item items p of
           None \<Rightarrow> mark_deprecated ev route_ids rest (items, t, deprecated)
         | Some it \<Rightarrow>
             (if \<not> py_contains deprecated_marker (request_description it)
              then mark_deprecated ev route_ids rest
                     (upd_item (mark_item ev t) p items, Suc t, deprecated @ [uid])
              else mark_deprecated ev route_ids rest (items, t, deprecated)))
      else mark_deprecated ev route_ids rest (items, t, deprecated))"

subsection \<open>\<open>_remove_old_deprecated\<close>\<close>

text \<open>
  What the body of the loop in \<open>process_items\<close> decides for one item: \<open>Inr (Some uid)\<close>
  when the item is removed (\<open>continue\<close>, after \<open>uid\<close> has been recorded), \<open>Inr None\<close> when
  it is kept, \<open>Inl\<close> when an exception leaves the \<open>try\<close> block. Only \<open>ValueError\<close> is
  caught there.
\<close>

definition deprecated_and_old :: "env \<Rightarrow> int \<Rightarrow> item \<Rightarrow> exn + string option" where
  "deprecated_and_old ev cutoff_date it =
     (case item_request it of
        None \<Rightarrow> Inr None
      | Some rq \<Rightarrow>
          (let desc = request_description it in
           if py_contains deprecated_marker desc then
             (case search_as_of desc of
                None \<Rightarrow> Inr None
              | Some g \<Rightarrow>
                  (case fromisoformat ev g of
                     IsoValueError \<Rightarrow> Inr None
                   | IsoAware \<Rightarrow> Inl (TypeError ''can't compare offset-naive and offset-aware datetimes'')
                   | IsoNaive dep_date \<Rightarrow>
                       (if dep_date < cutoff_date then
                          (case request_unique_id rq of
                             Inl e \<Rightarrow> Inl e
                           | Inr uid \<Rightarrow> Inr (Some uid))
                        else Inr None)))
           else Inr None))"

text \<open>The inner function \<open>process_items\<close>: the list \<open>filtered\<close>, what the call appended
  to \<open>removed\<close>, and what it logged.\<close>

function process_items ::
  "env \<Rightarrow> int \<Rightarrow> item list \<Rightarrow> exn + item list \<times> string list \<times> log_event list" where
  "process_items ev cutoff_date [] = Inr ([], [], [])"
| "process_items ev cutoff_date (it # rest) =
     (case deprecated_and_old ev cutoff_date it of
        Inl e \<Rightarrow> Inl e
      | Inr (Some uid) \<Rightarrow>
          (case process_items ev cutoff_date rest of
             Inl e \<Rightarrow> Inl e
           | Inr (filtered, removed, logged) \<Rightarrow>
               Inr (filtered, uid # removed, RemovedOldDeprecated uid # logged))
      | Inr None \<Rightarrow>
          (case (case item_children it of
                   None \<Rightarrow> Inr (it, [], [])
                 | Some cs \<Rightarrow>
                     (case process_items ev cutoff_date cs of
                        Inl e \<Rightarrow> Inl e
                      | Inr (cs', removed_c, logged_c) \<Rightarrow>
                          Inr (set_children it cs', removed_c, logged_c))) of
             Inl e \<Rightarrow> Inl e
           | Inr (it', removed_c, logged_c) \<Rightarrow>
               (case process_items ev cutoff_date rest of
                  Inl e \<Rightarrow> Inl e
                | Inr (filtered, removed, logged) \<Rightarrow>
                    Inr (it' # filtered, removed_c @ removed, logged_c @ logged))))"
  by pat_completeness auto
termination
proof (relation "measure (\<lambda>(ev, cutoff_date, items). size_list size items)")
  fix it :: item and rest :: "item list" and cs :: "item list"
  assume "item_children it = Some cs"
  then have "size_list size cs < size it"
    by (cases it) simp
  then show "((ev, cutoff_date, cs), (ev, cutoff_date, it # rest)) \<in>
      measure (\<lambda>(ev, cutoff_date, items). size_list size items)" for ev cutoff_date
    by simp
qed simp_all

text \<open>
  The state in which a call of \<open>process_items\<close> that raises leaves the list it was given:
  the items before the failing one are still in the list (the list \<open>filtered\<close> is lost),
  and each folder whose own call returned has its \<open>item\<close> list replaced.
\<close>

function process_items_state :: "env \<Rightarrow> int \<Rightarrow> item list \<Rightarrow> item list" where
  "process_items_state ev cutoff_date [] = []"
| "process_items_state ev cutoff_date (it # rest) =
     (case deprecated_and_old ev cutoff_date it of
        Inl e \<Rightarrow> it # rest
      | Inr (Some uid) \<Rightarrow> it # process_items_state ev cutoff_date rest
      | Inr None \<Rightarrow>
          (case item_children it of
             None \<Rightarrow> it # process_items_state ev cutoff_date rest
           | Some cs \<Rightarrow>
               (case process_items ev cutoff_date cs of
                  Inl e \<Rightarrow> set_children it (process_items_state ev cutoff_date cs) # rest
                | Inr (cs', removed_c, logged_c) \<Rightarrow>
                    set_children it cs' # process_items_state ev cutoff_date rest)))"
  by pat_completeness auto
termination
proof (relation "measure (\<lambda>(ev, cutoff_date, items). size_list size items)")
  fix it :: item and rest :: "item list" and cs :: "item list"
  assume "item_children it = Some cs"
  then have "size_list size cs < size it"
    by (cases it) simp
  then show "((ev, cutoff_date, cs), (ev, cutoff_date, it # rest)) \<in>
      measure (\<lambda>(ev, cutoff_date, items). size_list size items)" for ev cutoff_date
    by simp
qed simp_all

text \<open>\<open>cutoff_date = datetime.utcnow() - timedelta(days=self.deprecation_days)\<close>, read at
  tick \<open>t\<close>.\<close>

definition cutoff_date_at :: "collection_merger \<Rightarrow> env \<Rightarrow> nat \<Rightarrow> int" where
  "cutoff_date_at m ev t = utcnow ev t - deprecation_days m * day_us"

definition remove_old_deprecated ::
  "collection_merger \<Rightarrow> env \<Rightarrow> nat \<Rightarrow> item list \<Rightarrow> exn + item list \<times> string list \<times> log_event list" where
  "remove_old_deprecated m ev t items = process_items ev (cutoff_date_at m ev t) items"

subsection \<open>\<open>merge\<close>\<close>

text \<open>\<open>collection.get("item", [])\<close>, once validation has passed (the value is a list).\<close>

definition collection_items :: "collection \<Rightarrow> item list" where
  "collection_items c = (case coll_item c of Some (ItemList its) \<Rightarrow> its | _ \<Rightarrow> [])"

definition new_routes :: "index \<Rightarrow> route list \<Rightarrow> route list" where
  "new_routes existing_requests routes = filter (\<lambda>r. map_of existing_requests (unique_id r) = None) routes"

text \<open>
  Steps 1 to 3 of \<open>merge\<close> on the top-level item list: index, create the folders of the
  new routes, update or add each route, mark the missing ones. The result is the item
  list, the number of clock readings made (the first is \<open>SyncResult()\<close>'s), and the
  result so far. An exception here is raised before the document is touched.
\<close>

definition merge_steps ::
  "env \<Rightarrow> item list \<Rightarrow> route list \<Rightarrow> exn + item list \<times> nat \<times> sync_result" where
  "merge_steps ev items routes =
     (case index_requests items of
        Inl e \<Rightarrow> Inl e
      | Inr existing_requests \<Rightarrow>
          (let route_ids = map unique_id routes;
               result = new_sync_result (utcnow ev 0);
               new_routes_by_folder = organize_by_folder (new_routes existing_requests routes)
           in case ensure_folders items (map fst new_routes_by_folder) of
                Inl e \<Rightarrow> Inl e
              | Inr items1 \<Rightarrow>
                  (case process_routes ev existing_requests routes (items1, 1, result) of
                     (items2, t2, result2) \<Rightarrow>
                       (case mark_deprecated ev route_ids existing_requests (items2, t2, []) of
                          (items3, t3, deprecated) \<Rightarrow>
                            Inr (items3, t3,
                                 result2\<lparr>routes_deprecated := routes_deprecated result2 @ deprecated\<rparr>)))))"

text \<open>
  \<open>CollectionMerger.merge\<close>. The first component of the result is the state of the
  collection object the caller passed in (on success the same object is returned), the
  second the \<open>MergerError\<close> raised or the \<open>SyncResult\<close> returned.
\<close>

definition merge ::
  "collection_merger \<Rightarrow> env \<Rightarrow> collection \<Rightarrow> route list \<Rightarrow> collection \<times> (merger_error + sync_result)" where
  "merge m ev c routes =
     (case validate_postman_collection c of
        Inl e \<Rightarrow> (c, Inl (MergerError e))
      | Inr u \<Rightarrow>
          (case merge_steps ev (collection_items c) routes of
             Inl e \<Rightarrow> (c, Inl (MergerError e))
           | Inr (items3, t3, result3) \<Rightarrow>
               (case remove_old_deprecated m ev t3 items3 of
                  Inl e \<Rightarrow>
                    (c\<lparr>coll_item := Some (ItemList (process_items_state ev (cutoff_date_at m ev t3) items3))\<rparr>,
                     Inl (MergerError e))
                | Inr (items4, removed, logged) \<Rightarrow>
                    (c\<lparr>coll_item := Some (ItemList items4)\<rparr>,
                     Inr (result3\<lparr>routes_removed := routes_removed result3 @ removed\<rparr>)))))"

section \<open>Notions used to state the properties\<close>

subsection \<open>The entries of a document, in the words of the specification\<close>

text \<open>
  The entries of an item list in depth-first order, each with its place: an item that
  has a \<open>request\<close> comes first, then the entries among its children, then those of
  the items after it. \<open>entries_from pre k items\<close> lists the entries of a list whose
  place is \<open>pre\<close> and whose first item stands at position \<open>k\<close>.
\<close>

function entries_from :: "item_ref \<Rightarrow> nat \<Rightarrow> item list \<Rightarrow> (item_ref \<times> request) list" where
  "entries_from pre k [] = []"
| "entries_from pre k (it # rest) =
     (case item_request it of None \<Rightarrow> [] | Some rq \<Rightarrow> [(pre @ [k], rq)])
     @ (case item_children it of None \<Rightarrow> [] | Some cs \<Rightarrow> entries_from (pre @ [k]) 0 cs)
     @ entries_from pre (Suc k) rest"
  by pat_completeness auto
termination
proof (relation "measure (\<lambda>(pre, k, items). size_list size items)")
  fix it :: item and rest :: "item list" and cs :: "item list"
  assume "item_children it = Some cs"
  then have "size_list size cs < size it"
    by (cases it) simp
  then show "((pre @ [k], 0, cs), (pre, k, it # rest)) \<in>
      measure (\<lambda>(pre, k, items). size_list size items)" for pre k
    by simp
qed simp_all

definition entries_dfs :: "item list \<Rightarrow> (item_ref \<times> request) list" where
  "entries_dfs items = entries_from [] 0 items"

text \<open>The identity key of an entry: its method, a colon, and the path extracted from its
  URL.\<close>

definition entry_key :: "request \<Rightarrow> string" where
  "entry_key rq =
     (case rq_method rq of None \<Rightarrow> [] | Some m \<Rightarrow> m) @ '':'' @ extract_path (url_or_empty rq)"

definition keyed :: "(item_ref \<times> request) list \<Rightarrow> index" where
  "keyed es = map (\<lambda>(p, rq). (entry_key rq, p)) es"

text \<open>Adding a pair to an index unless its key is there already.\<close>

definition insert_new :: "index \<Rightarrow> string \<times> item_ref \<Rightarrow> index" where
  "insert_new idx kv = (if map_of idx (fst kv) = None then idx @ [kv] else idx)"

subsection \<open>What the engine may change in an item\<close>

text \<open>Two states of an item that differ at most in what is below it: the same name,
  request, events and responses, and both with or both without a child list.\<close>

definition same_node :: "item \<Rightarrow> item \<Rightarrow> bool" where
  "same_node x x' \<longleftrightarrow>
     item_name x' = item_name x \<and> item_request x' = item_request x
     \<and> item_event x' = item_event x \<and> item_response x' = item_response x
     \<and> (item_children x' = None \<longleftrightarrow> item_children x = None)"

definition events_of :: "item \<Rightarrow> event list" where
  "events_of it = (case item_event it of None \<Rightarrow> [] | Some es \<Rightarrow> es)"

text \<open>The \<open>prerequest\<close> event \<open>_ensure_auth_prerequest\<close> adds.\<close>

definition auth_event :: event where
  "auth_event = script_event ''prerequest'' generate_prerequest_auth_script"

definition header_of :: "item \<Rightarrow> json option" where
  "header_of it = (case item_request it of None \<Rightarrow> None | Some rq \<Rightarrow> rq_header rq)"

text \<open>
  \<open>engine_touched x x'\<close>: the item \<open>x'\<close> has the name, the responses and the request
  headers of \<open>x\<close>, a request exactly when \<open>x\<close> has one, a child list exactly when \<open>x\<close>
  has one, and the events of \<open>x\<close> followed by nothing but authorization events.
\<close>

definition engine_touched :: "item \<Rightarrow> item \<Rightarrow> bool" where
  "engine_touched x x' \<longleftrightarrow>
     item_name x' = item_name x \<and> item_response x' = item_response x
     \<and> (item_request x' = None \<longleftrightarrow> item_request x = None)
     \<and> (item_children x' = None \<longleftrightarrow> item_children x = None)
     \<and> header_of x' = header_of x
     \<and> (\<exists>extra. events_of x' = events_of x @ extra \<and> set extra \<subseteq> {auth_event})"

subsection \<open>Deprecation state\<close>

text \<open>The description carries the deprecation marker.\<close>

definition marked :: "item \<Rightarrow> bool" where
  "marked it = py_contains deprecated_marker (request_description it)"

text \<open>The description carries the marker, and the time stamp the expiry pass reads from
  it is the instant \<open>T\<close>.\<close>

definition deprecated_at :: "env \<Rightarrow> item \<Rightarrow> int \<Rightarrow> bool" where
  "deprecated_at ev it T \<longleftrightarrow>
     py_contains deprecated_marker (request_description it)
     \<and> (case search_as_of (request_description it) of
          None \<Rightarrow> False
        | Some g \<Rightarrow> fromisoformat ev g = IsoNaive T)"

text \<open>Every item above the place \<open>p\<close> is a group: it has no \<open>request\<close>.\<close>

definition groups_above :: "item list \<Rightarrow> item_ref \<Rightarrow> bool" where
  "groups_above items p \<longleftrightarrow>
     (\<forall>q. q \<noteq> [] \<and> strict_prefix q p \<longrightarrow>
        (\<exists>a. get_item items q = Some a \<and> item_request a = None))"

text \<open>Every item above the place \<open>p\<close> is kept by the expiry pass.\<close>

definition kept_above :: "env \<Rightarrow> int \<Rightarrow> item list \<Rightarrow> item_ref \<Rightarrow> bool" where
  "kept_above ev c items p \<longleftrightarrow>
     (\<forall>q. q \<noteq> [] \<and> strict_prefix q p \<longrightarrow>
        (\<exists>a. get_item items q = Some a \<and> deprecated_and_old ev c a = Inr None))"

text \<open>The item \<open>y\<close> is what the expiry pass makes of a kept item \<open>x\<close>: the same node,
  its child list replaced by the result of the pass on it.\<close>

definition kept_item :: "env \<Rightarrow> int \<Rightarrow> item \<Rightarrow> item \<Rightarrow> string list \<Rightarrow> bool" where
  "kept_item ev c x y rm \<longleftrightarrow>
     same_node x y
     \<and> (\<forall>cs. item_children x = Some cs \<longrightarrow>
          (\<exists>cs' rmc lgc. process_items ev c cs = Inr (cs', rmc, lgc)
             \<and> item_children y = Some cs' \<and> set rmc \<subseteq> set rm))"

text \<open>The time stamp of the marker is missing (the regular expression finds no match in
  the description) or does not parse (\<open>fromisoformat\<close> raises \<open>ValueError\<close>).\<close>

definition unparsable_timestamp :: "env \<Rightarrow> item \<Rightarrow> bool" where
  "unparsable_timestamp ev it \<longleftrightarrow>
     (case search_as_of (request_description it) of
        None \<Rightarrow> True
      | Some g \<Rightarrow> fromisoformat ev g = IsoValueError)"

text \<open>An item with the key \<open>item\<close>: what \<open>_ensure_folders\<close> and \<open>_add_request\<close>
  take for a folder.\<close>

definition is_group :: "item \<Rightarrow> bool" where
  "is_group it \<longleftrightarrow> item_children it \<noteq> None"

text \<open>The entries of a document that \<open>_index_requests\<close> would file under the identity
  \<open>u\<close>, with their places.\<close>

definition entries_with_id :: "string \<Rightarrow> item list \<Rightarrow> (item_ref \<times> request) list" where
  "entries_with_id u items = filter (\<lambda>(p, rq). request_unique_id rq = Inr u) (entries_dfs items)"

section \<open>Inputs of the scenarios\<close>

text \<open>The insertion scenario: an empty collection and the route \<open>POST /api/auth/token\<close>
  of the file \<open>auth.ts\<close>, not protected.\<close>

definition scenario_route :: route where
  "scenario_route =
     \<lparr>r_method = POST, r_path = ''/auth/token'', full_path = ''/api/auth/token'',
      handler_name = ''generateToken'', r_description = None, r_schema = None,
      r_metadata = Some \<lparr>file_path = ''src/routes/auth.ts'', file_name = ''auth.ts'',
                          line_number = 1, is_protected = False, rate_limit = None,
                          extracted_at = 0\<rparr>\<rparr>"

definition empty_collection :: collection where
  "empty_collection =
     \<lparr>coll_info = Some (InfoObj [(''name'', JStr ''API'')]), coll_item = Some (ItemList []),
      coll_rest = []\<rparr>"

text \<open>
  A clock that stands still at the instant \<open>now\<close>, and a codec that knows three instants:
  \<open>0\<close> is written \<open>2024-01-01T00:00:00\<close>, and 29 and 31 days later are
  \<open>2024-01-30T00:00:00\<close> and \<open>2024-02-01T00:00:00\<close>. Any other string is taken not to
  parse.
\<close>

definition calendar :: "(int \<times> string) list" where
  "calendar =
     [(0, ''2024-01-01T00:00:00''),
      (29 * day_us, ''2024-01-30T00:00:00''),
      (31 * day_us, ''2024-02-01T00:00:00'')]"

definition env_at :: "int \<Rightarrow> env" where
  "env_at now =
     \<lparr>utcnow = (\<lambda>k. now),
      isoformat = (\<lambda>t. case map_of calendar t of None \<Rightarrow> [] | Some s \<Rightarrow> s),
      fromisoformat =
        (\<lambda>s. case map_of (map (\<lambda>(t, s). (s, t)) calendar) s of
               None \<Rightarrow> IsoValueError
             | Some t \<Rightarrow> IsoNaive t)\<rparr>"

definition frozen_env :: env where
  "frozen_env = env_at 0"

text \<open>A collection with one group \<open>Users\<close> that holds one entry, \<open>DELETE /api/users/:id\<close>,
  deprecated at the instant \<open>0\<close>.\<close>

definition deprecated_entry :: item where
  "deprecated_entry =
     Item (Some ''Delete User'')
          (Some (Request (Some ''DELETE'') (Some (build_url ''/api/users/:id''))
                   (Some (''**DEPRECATED** (as of 2024-01-01T00:00:00)'' @ [CHR 0x0A, CHR 0x0A]
                          @ ''Removes a user''))
                   None))
          None None None"

definition users_collection :: collection where
  "users_collection =
     \<lparr>coll_info = Some (InfoObj [(''name'', JStr ''API'')]),
      coll_item = Some (ItemList [Item (Some ''Users'') None (Some [deprecated_entry]) None None]),
      coll_rest = []\<rparr>"

text \<open>A nested document: a group \<open>A\<close> with an entry \<open>GET /x\<close> (a URL object) and a
  group \<open>B\<close>, which holds a second entry \<open>GET /x\<close> (a URL string) and an entry
  \<open>POST /y/z\<close>.\<close>

definition entry_first :: item where
  "entry_first =
     Item (Some ''First'')
          (Some (Request (Some ''GET'') (Some (UrlObj None None (Some (PathList [''x''])))) None None))
          None None None"

definition entry_second :: item where
  "entry_second =
     Item (Some ''Second'') (Some (Request (Some ''GET'') (Some (UrlStr ''/x'')) None None))
          None None None"

definition entry_third :: item where
  "entry_third =
     Item (Some ''Third'')
          (Some (Request (Some ''POST'') (Some (UrlObj None None (Some (PathList [''y'', ''z''])))) None None))
          None None None"

definition nested_items :: "item list" where
  "nested_items =
     [Item (Some ''A'') None
        (Some [entry_first, Item (Some ''B'') None (Some [entry_second, entry_third]) None None])
        None None]"

text \<open>An entry whose marker has a time stamp that is no date, and a collection whose
  group \<open>Legacy\<close> holds it before the entry deprecated at the instant \<open>0\<close>.\<close>

definition stale_entry :: item where
  "stale_entry =
     Item (Some ''Old Report'')
          (Some (Request (Some ''GET'') (Some (build_url ''/api/report''))
                   (Some (''**DEPRECATED** (as of 2024-13-45)'' @ [CHR 0x0A, CHR 0x0A]
                          @ ''Old endpoint''))
                   None))
          None None None"

definition legacy_collection :: collection where
  "legacy_collection =
     \<lparr>coll_info = Some (InfoObj [(''name'', JStr ''API'')]),
      coll_item = Some (ItemList
        [Item (Some ''Legacy'') None (Some [stale_entry, deprecated_entry]) None None]),
      coll_rest = []\<rparr>"

text \<open>The update scenario: a group \<open>Monitoring\<close> with the entry \<open>GET /api/health\<close>,
  described by hand as \<open>Checks service\<close>, with a test script and an example response;
  and the protected route \<open>GET /api/health\<close> of the file \<open>health.ts\<close>.\<close>

definition health_entry :: item where
  "health_entry =
     Item (Some ''Health'')
          (Some (Request (Some ''GET'') (Some (UrlStr ''/api/health'')) (Some ''Checks service'')
                   (Some (JArr []))))
          None
          (Some [script_event ''test'' [''// written by hand'']])
          (Some (JArr [JStr ''example'']))"

definition health_route :: route where
  "health_route =
     \<lparr>r_method = GET, r_path = ''/health'', full_path = ''/api/health'',
      handler_name = ''health'', r_description = None, r_schema = None,
      r_metadata = Some \<lparr>file_path = ''src/routes/health.ts'', file_name = ''health.ts'',
                          line_number = 7, is_protected = True, rate_limit = None,
                          extracted_at = 0\<rparr>\<rparr>"

definition monitoring_items :: "item list" where
  "monitoring_items = [Item (Some ''Monitoring'') None (Some [health_entry]) None None]"

text \<open>The group \<open>Auth\<close> with two entries made for the route \<open>POST /api/auth/token\<close>, at
  the clock readings 1 and 2.\<close>

definition twice_inserted :: "item list" where
  "twice_inserted =
     [Item (Some ''Auth'') None
        (Some [new_request_item frozen_env 1 scenario_route,
               new_request_item frozen_env 2 scenario_route])
        None None]"

text \<open>The collection \<open>merge\<close> makes of the empty collection and the route
  \<open>POST /api/auth/token\<close> at the instant \<open>0\<close>, and its entry as \<open>_update_request\<close> leaves
  it at the instant \<open>now\<close>.\<close>

definition inserted_collection :: collection where
  "inserted_collection =
     empty_collection\<lparr>coll_item := Some (ItemList
       [Item (Some ''Auth'') None (Some [new_request_item frozen_env 1 scenario_route]) None None])\<rparr>"

definition updated_collection :: "int \<Rightarrow> collection" where
  "updated_collection now =
     empty_collection\<lparr>coll_item := Some (ItemList
       [Item (Some ''Auth'') None
          (Some [update_request (env_at now) 1 scenario_route
                   (new_request_item frozen_env 1 scenario_route)])
          None None])\<rparr>"

section \<open>Properties\<close>

subsection \<open>Strings\<close>

lemmas str_defs = py_split_ws_def py_isspace_def py_lower_def char_lower_def char_upper_def
  ascii_lowercase_def ascii_uppercase_def py_strip_def py_rstrip_def

lemma py_split_char_nonempty: "py_split_char c s \<noteq> []"
  by (induction s) (auto split: list.splits)

lemma py_join_Cons_Cons: "py_join sep ((c # w) # ws) = c # py_join sep (w # ws)"
  by (cases ws) simp_all

lemma py_join_Nil_Cons: "ws \<noteq> [] \<Longrightarrow> py_join sep ([] # ws) = sep @ py_join sep ws"
  by (cases ws) simp_all

text \<open>Joining what \<open>split\<close> produced gives the string back.\<close>

lemma py_join_split_char: "py_join [c] (py_split_char c s) = s"
proof (induction s)
  case Nil
  show ?case by simp
next
  case (Cons a s)
  show ?case
  proof (cases "a = c")
    case True
    then show ?thesis
      using Cons py_split_char_nonempty [of c s] by (simp add: py_join_Nil_Cons)
  next
    case False
    obtain w ws where "py_split_char c s = w # ws"
      using py_split_char_nonempty [of c s] by (cases "py_split_char c s") auto
    with False Cons show ?thesis
      by (simp add: py_join_Cons_Cons)
  qed
qed

subsection \<open>The clock and codec of the scenarios\<close>

lemma utcnow_env_at [simp]: "utcnow (env_at now) k = now"
  by (simp add: env_at_def)

lemma isoformat_env_at_0 [simp]: "isoformat (env_at now) 0 = ''2024-01-01T00:00:00''"
  by (simp add: env_at_def calendar_def)

lemma fromisoformat_env_at:
  "fromisoformat (env_at now) s =
     (if s = ''2024-01-01T00:00:00'' then IsoNaive 0
      else if s = ''2024-01-30T00:00:00'' then IsoNaive (29 * day_us)
      else if s = ''2024-02-01T00:00:00'' then IsoNaive (31 * day_us)
      else IsoValueError)"
  by (simp add: env_at_def calendar_def)

lemma sync_note_frozen_env:
  "sync_note frozen_env t = [CHR 0x0A, CHR 0x0A] @ ''_Last synced: 2024-01-01T00:00:00_''"
  by (simp add: sync_note_def frozen_env_def)

subsection \<open>URL construction and path extraction\<close>

lemma extract_path_build_url:
  assumes "prefix ''/'' p"
    and "\<forall>s \<in> set (tl (py_split_char CHR ''/'' p)). s \<noteq> []"
  shows "extract_path (build_url p) = p"
proof -
  from assms(1) obtain q where p: "p = CHR ''/'' # q"
    by (auto simp: prefix_def)
  then have sp: "py_split_char CHR ''/'' p = [] # py_split_char CHR ''/'' q"
    by simp
  with assms(2) have "\<forall>s \<in> set (py_split_char CHR ''/'' q). s \<noteq> []"
    by simp
  then have "filter (\<lambda>s. s \<noteq> []) (py_split_char CHR ''/'' q) = py_split_char CHR ''/'' q"
    by (simp add: filter_id_conv)
  then have "filter (\<lambda>s. s \<noteq> []) (py_split_char CHR ''/'' p) = py_split_char CHR ''/'' q"
    using sp by simp
  then have "extract_path (build_url p) = ''/'' @ py_join ''/'' (py_split_char CHR ''/'' q)"
    by (simp add: build_url_def)
  then show ?thesis
    using p py_join_split_char [of "CHR ''/''" q] by simp
qed

lemma item_request_ensure_auth_prerequest [simp]:
  "item_request (ensure_auth_prerequest it) = item_request it"
  by (cases it) (simp add: ensure_auth_prerequest_def Let_def)

lemma item_request_new_request_item:
  "\<exists>d. item_request (new_request_item ev t r) =
     Some (Request (Some (method_value (r_method r))) (Some (build_url (full_path r))) (Some d)
             (Some (JArr [])))"
  by (simp add: new_request_item_def Let_def)

lemma item_children_ensure_auth_prerequest [simp]:
  "item_children (ensure_auth_prerequest it) = item_children it"
  by (cases it) (simp add: ensure_auth_prerequest_def Let_def)

lemma item_children_new_request_item [simp]:
  "item_children (new_request_item ev t r) = None"
  by (simp add: new_request_item_def Let_def)

lemma new_request_item_unique_id:
  assumes "extract_path (build_url (full_path r)) = full_path r"
    and "item_request (new_request_item ev t r) = Some rq"
  shows "request_unique_id rq = Inr (unique_id r)"
  using assms item_request_new_request_item [of ev t r]
  by (auto simp: request_unique_id_def unique_id_def url_or_empty_def)

text \<open>
  Claim C10. For a path \<open>p\<close> that starts with \<open>/\<close> and whose split at \<open>/\<close> has, after the
  leading empty field, only non-empty fields, \<open>_extract_path\<close> returns \<open>p\<close> from the URL
  object \<open>_build_url\<close> makes of \<open>p\<close>; and the entry \<open>_add_request\<close> builds for a route
  with this \<open>full_path\<close> is indexed, wherever it stands, under the route's \<open>unique_id\<close>.
\<close>

theorem url_round_trip:
  assumes "prefix ''/'' p"
    and "\<forall>s \<in> set (tl (py_split_char CHR ''/'' p)). s \<noteq> []"
  shows "extract_path (build_url p) = p
         \<and> (full_path r = p \<longrightarrow>
            index_items pre k [new_request_item ev t r] [] = Inr [(unique_id r, pre @ [k])])"
proof (intro conjI impI)
  show rt: "extract_path (build_url p) = p"
    using assms by (rule extract_path_build_url)
  assume fp: "full_path r = p"
  obtain rq where rq: "item_request (new_request_item ev t r) = Some rq"
    using item_request_new_request_item [of ev t r] by auto
  then have "request_unique_id rq = Inr (unique_id r)"
    using new_request_item_unique_id [of r ev t rq] rt fp by simp
  with rq show "index_items pre k [new_request_item ev t r] [] = Inr [(unique_id r, pre @ [k])]"
    by simp
qed

theorem url_round_trip_witness:
  "prefix ''/'' ''/api/users/:id''
   \<and> set (tl (py_split_char CHR ''/'' ''/api/users/:id'')) = {''api'', ''users'', '':id''}
   \<and> extract_path (build_url ''/api/users/:id'') = ''/api/users/:id''
   \<and> index_items [0] 0
        [new_request_item frozen_env 1 (scenario_route\<lparr>full_path := ''/api/users/:id''\<rparr>)] []
       = Inr [(''POST:/api/users/:id'', [0, 0])]"
proof -
  have a: "prefix ''/'' ''/api/users/:id''"
    by simp
  have b: "\<forall>s \<in> set (tl (py_split_char CHR ''/'' ''/api/users/:id'')). s \<noteq> []"
    by simp
  have c: "full_path (scenario_route\<lparr>full_path := ''/api/users/:id''\<rparr>) = ''/api/users/:id''"
    by simp
  have d: "unique_id (scenario_route\<lparr>full_path := ''/api/users/:id''\<rparr>) = ''POST:/api/users/:id''"
    by (simp add: unique_id_def scenario_route_def)
  show ?thesis
    using url_round_trip [OF a b, of "scenario_route\<lparr>full_path := ''/api/users/:id''\<rparr>" "[0]" 0 frozen_env 1]
      c d
    by auto
qed

subsection \<open>Structural precondition\<close>

text \<open>
  Claim C6. When the document lacks \<open>info\<close>, lacks \<open>item\<close>, or its \<open>info\<close> lacks
  \<open>name\<close>, \<open>merge\<close> raises \<open>MergerError\<close> from the \<open>ValidationError\<close> of
  \<open>validate_postman_collection\<close>, and the document is as it was.
\<close>

theorem merge_malformed_document:
  "(coll_info c = None \<longrightarrow>
      merge m ev c routes =
        (c, Inl (MergerError (ValidationError ''Collection missing 'info' field''))))
   \<and> (coll_info c \<noteq> None \<and> coll_item c = None \<longrightarrow>
      merge m ev c routes =
        (c, Inl (MergerError (ValidationError ''Collection missing 'item' field''))))
   \<and> (coll_info c = Some (InfoObj kvs) \<and> coll_item c \<noteq> None \<and> map_of kvs ''name'' = None \<longrightarrow>
      merge m ev c routes =
        (c, Inl (MergerError (ValidationError ''Collection info missing 'name' field''))))"
  by (auto simp: merge_def validate_postman_collection_def)

theorem merge_malformed_document_witness:
  "merge \<lparr>deprecation_days = 30\<rparr> frozen_env (empty_collection\<lparr>coll_info := None\<rparr>) [scenario_route] =
     (empty_collection\<lparr>coll_info := None\<rparr>,
      Inl (MergerError (ValidationError ''Collection missing 'info' field'')))
   \<and> merge \<lparr>deprecation_days = 30\<rparr> frozen_env (empty_collection\<lparr>coll_item := None\<rparr>) [scenario_route] =
     (empty_collection\<lparr>coll_item := None\<rparr>,
      Inl (MergerError (ValidationError ''Collection missing 'item' field'')))
   \<and> merge \<lparr>deprecation_days = 30\<rparr> frozen_env
        (empty_collection\<lparr>coll_info := Some (InfoObj [(''description'', JStr ''x'')])\<rparr>) [scenario_route] =
     (empty_collection\<lparr>coll_info := Some (InfoObj [(''description'', JStr ''x'')])\<rparr>,
      Inl (MergerError (ValidationError ''Collection info missing 'name' field'')))"
  using merge_malformed_document
      [of "empty_collection\<lparr>coll_info := None\<rparr>" "\<lparr>deprecation_days = 30\<rparr>" frozen_env
          "[scenario_route]" "[]"]
    merge_malformed_document
      [of "empty_collection\<lparr>coll_item := None\<rparr>" "\<lparr>deprecation_days = 30\<rparr>" frozen_env
          "[scenario_route]" "[]"]
    merge_malformed_document
      [of "empty_collection\<lparr>coll_info := Some (InfoObj [(''description'', JStr ''x'')])\<rparr>"
          "\<lparr>deprecation_days = 30\<rparr>" frozen_env "[scenario_route]" "[(''description'', JStr ''x'')]"]
  by (simp add: empty_collection_def)

subsection \<open>The insertion scenario\<close>

lemma scenario_request_name: "request_name scenario_route = ''Generate Auth Token''"
  by (simp add: scenario_route_def request_name_def path_parts_def readable_part_def
      method_prefix_def str_defs)

lemma scenario_folder_name: "folder_name scenario_route = ''Auth''"
  by (simp add: scenario_route_def folder_name_def str_defs)

lemma scenario_test_script:
  "generate_test_script scenario_route =
     [''pm.test(\"Status code is 200\", function () {'',
      ''    pm.response.to.have.status(200);'',
      ''});'',
      '''',
      ''pm.test(\"Response contains token\", function () {'',
      ''    var jsonData = pm.response.json();'',
      ''    pm.expect(jsonData).to.have.property(\"token\");'',
      ''});'',
      '''',
      ''// Save token to collection variable'',
      ''if (pm.response.code === 200) {'',
      ''    var jsonData = pm.response.json();'',
      ''    pm.collectionVariables.set(\"jwtToken\", jsonData.token);'',
      ''}'',
      '''']"
  by (simp add: scenario_route_def generate_test_script_def generate_post_tests_def
      has_success_schema_def str_defs)

lemma scenario_new_item:
  "new_request_item ev t scenario_route =
     Item (Some ''Generate Auth Token'')
       (Some (Request (Some ''POST'') (Some (build_url ''/api/auth/token''))
          (Some (''POST /api/auth/token'' @ sync_note ev t)) (Some (JArr []))))
       None
       (Some [script_event ''test'' (generate_test_script scenario_route)])
       (Some (JArr []))"
  unfolding new_request_item_def scenario_request_name
  by (simp add: scenario_test_script)
     (simp add: scenario_route_def route_description_def route_protected_def)

lemma scenario_steps:
  "merge_steps frozen_env [] [scenario_route] =
     Inr ([Item (Some ''Auth'') None (Some [new_request_item frozen_env 1 scenario_route]) None None],
          2, (new_sync_result 0)\<lparr>routes_added := [scenario_route]\<rparr>)"
  by (simp add: merge_steps_def index_requests_def new_routes_def organize_by_folder_def
      scenario_folder_name ensure_folders_def new_folder_def add_request_def append_child_def
      new_sync_result_def)
     (simp add: frozen_env_def scenario_route_def route_description_def)

lemma scenario_expiry:
  "remove_old_deprecated m frozen_env t'
     [Item (Some ''Auth'') None (Some [new_request_item frozen_env t scenario_route]) None None] =
   Inr ([Item (Some ''Auth'') None (Some [new_request_item frozen_env t scenario_route]) None None],
        [], [])"
proof -
  have keep: "deprecated_and_old frozen_env c (new_request_item frozen_env t scenario_route) = Inr None"
    for c
    by (simp add: scenario_new_item deprecated_and_old_def request_description_def
        sync_note_frozen_env deprecated_marker_def)
  have outer: "deprecated_and_old frozen_env c (Item (Some ''Auth'') None cs None None) = Inr None"
    for c cs
    by (simp add: deprecated_and_old_def)
  show ?thesis
    by (simp add: remove_old_deprecated_def outer keep)
qed

text \<open>
  Claim C3, evaluated. From the empty collection and the one route
  \<open>POST /api/auth/token\<close> of \<open>auth.ts\<close>, \<open>merge\<close> makes one group \<open>Auth\<close> with one entry,
  whose \<open>test\<close> script has the token assertion and the step that saves the token, and
  \<open>routes_added\<close> has one element. The entry is named \<open>Generate Auth Token\<close>: every path
  segment but \<open>api\<close> goes into the name.
\<close>

theorem scenario_insertion:
  "merge m frozen_env empty_collection [scenario_route] =
     (empty_collection\<lparr>coll_item := Some (ItemList
        [Item (Some ''Auth'') None
           (Some [Item (Some ''Generate Auth Token'')
              (Some (Request (Some ''POST'') (Some (build_url ''/api/auth/token''))
                   (Some (''POST /api/auth/token'' @ sync_note frozen_env 1)) (Some (JArr []))))
              None
              (Some [script_event ''test''
                [''pm.test(\"Status code is 200\", function () {'',
                 ''    pm.response.to.have.status(200);'',
                 ''});'',
                 '''',
                 ''pm.test(\"Response contains token\", function () {'',
                 ''    var jsonData = pm.response.json();'',
                 ''    pm.expect(jsonData).to.have.property(\"token\");'',
                 ''});'',
                 '''',
                 ''// Save token to collection variable'',
                 ''if (pm.response.code === 200) {'',
                 ''    var jsonData = pm.response.json();'',
                 ''    pm.collectionVariables.set(\"jwtToken\", jsonData.token);'',
                 ''}'',
                 '''']])
              (Some (JArr []))])
           None None])\<rparr>,
      Inr ((new_sync_result 0)\<lparr>routes_added := [scenario_route]\<rparr>))"
proof -
  have v: "validate_postman_collection empty_collection = Inr ()"
    by (simp add: validate_postman_collection_def empty_collection_def)
  have ci: "collection_items empty_collection = []"
    by (simp add: collection_items_def empty_collection_def)
  have "merge m frozen_env empty_collection [scenario_route] =
     (empty_collection\<lparr>coll_item := Some (ItemList
        [Item (Some ''Auth'') None (Some [new_request_item frozen_env 1 scenario_route]) None None])\<rparr>,
      Inr ((new_sync_result 0)\<lparr>routes_added := [scenario_route]\<rparr>))"
    by (simp add: merge_def v ci scenario_steps scenario_expiry new_sync_result_def)
  then show ?thesis
    by (simp add: scenario_new_item scenario_test_script)
qed

subsection \<open>Places and the entries of a document\<close>

lemma get_item_Cons_0:
  "get_item (it # rest) (0 # q) =
     (if q = [] then Some it else (case item_children it of None \<Rightarrow> None | Some cs \<Rightarrow> get_item cs q))"
  by (cases q) (simp_all split: option.splits)

lemma get_item_Cons_Suc: "get_item (it # rest) (Suc i # q) = get_item rest (i # q)"
  by (cases q) simp_all

lemma get_item_Nil [simp]: "get_item [] p = None"
  by (induction "[] :: item list" p rule: get_item.induct) simp_all

lemma entries_from_iff:
  "(p, rq) \<in> set (entries_from pre k items) \<longleftrightarrow>
     (\<exists>i q it. p = pre @ (k + i) # q \<and> get_item items (i # q) = Some it \<and> item_request it = Some rq)"
proof (induction pre k items arbitrary: p rule: entries_from.induct)
  case (1 pre k)
  show ?case by simp
next
  case (2 pre k it rest)
  have own: "(p, rq) \<in> set (case item_request it of None \<Rightarrow> [] | Some rq \<Rightarrow> [(pre @ [k], rq)])
      \<longleftrightarrow> (p = pre @ [k] \<and> item_request it = Some rq)"
    by (auto split: option.splits)
  have kids: "(p, rq) \<in> set (case item_children it of None \<Rightarrow> [] | Some cs \<Rightarrow> entries_from (pre @ [k]) 0 cs)
      \<longleftrightarrow> (\<exists>cs j q it'. item_children it = Some cs \<and> p = pre @ k # j # q
            \<and> get_item cs (j # q) = Some it' \<and> item_request it' = Some rq)"
  proof (cases "item_children it")
    case None
    then show ?thesis by simp
  next
    case (Some cs)
    then show ?thesis using "2.IH"(1) [OF Some, of p] by simp
  qed
  have rest: "(p, rq) \<in> set (entries_from pre (Suc k) rest)
      \<longleftrightarrow> (\<exists>i q it'. p = pre @ (Suc k + i) # q \<and> get_item rest (i # q) = Some it'
            \<and> item_request it' = Some rq)"
    using "2.IH"(2) by simp
  show ?case
  proof
    assume "(p, rq) \<in> set (entries_from pre k (it # rest))"
    then consider "p = pre @ [k] \<and> item_request it = Some rq"
      | "\<exists>cs j q it'. item_children it = Some cs \<and> p = pre @ k # j # q
            \<and> get_item cs (j # q) = Some it' \<and> item_request it' = Some rq"
      | "\<exists>i q it'. p = pre @ (Suc k + i) # q \<and> get_item rest (i # q) = Some it'
            \<and> item_request it' = Some rq"
      using own kids rest by auto
    then show "\<exists>i q it'. p = pre @ (k + i) # q \<and> get_item (it # rest) (i # q) = Some it'
        \<and> item_request it' = Some rq"
    proof cases
      case 1
      then show ?thesis
        by (intro exI [of _ 0] exI [of _ "[]"] exI [of _ it]) simp
    next
      case 2
      then obtain cs j q it' where "item_children it = Some cs" "p = pre @ k # j # q"
        "get_item cs (j # q) = Some it'" "item_request it' = Some rq"
        by blast
      then show ?thesis
        by (intro exI [of _ 0] exI [of _ "j # q"] exI [of _ it']) simp
    next
      case 3
      then obtain i q it' where "p = pre @ (Suc k + i) # q" "get_item rest (i # q) = Some it'"
        "item_request it' = Some rq"
        by blast
      then show ?thesis
        by (intro exI [of _ "Suc i"] exI [of _ q] exI [of _ it']) (simp add: get_item_Cons_Suc)
    qed
  next
    assume "\<exists>i q it'. p = pre @ (k + i) # q \<and> get_item (it # rest) (i # q) = Some it'
        \<and> item_request it' = Some rq"
    then obtain i q it' where h: "p = pre @ (k + i) # q" "get_item (it # rest) (i # q) = Some it'"
      "item_request it' = Some rq"
      by blast
    show "(p, rq) \<in> set (entries_from pre k (it # rest))"
    proof (cases i)
      case 0
      show ?thesis
      proof (cases q)
        case Nil
        with 0 h have "p = pre @ [k] \<and> item_request it = Some rq"
          by simp
        with own show ?thesis by simp
      next
        case (Cons j q')
        with 0 h obtain cs where "item_children it = Some cs" "get_item cs (j # q') = Some it'"
          by (auto split: option.splits)
        with 0 h Cons kids show ?thesis by auto
      qed
    next
      case (Suc i')
      with h have "get_item rest (i' # q) = Some it'"
        by (simp add: get_item_Cons_Suc)
      with Suc h rest show ?thesis by auto
    qed
  qed
qed

lemma entries_dfs_iff:
  "(p, rq) \<in> set (entries_dfs items) \<longleftrightarrow>
     (\<exists>it. get_item items p = Some it \<and> item_request it = Some rq)"
proof -
  have "(\<exists>i q it. p = i # q \<and> get_item items (i # q) = Some it \<and> item_request it = Some rq)
      \<longleftrightarrow> (\<exists>it. get_item items p = Some it \<and> item_request it = Some rq)"
    by (cases p) auto
  then show ?thesis
    by (simp add: entries_dfs_def entries_from_iff)
qed

subsection \<open>The index\<close>

text \<open>\<open>index_items\<close> fails exactly when an entry has no method; otherwise it adds the
  keyed entries, in depth-first order, each unless its key is there already.\<close>

lemma index_items_eq:
  "index_items pre k items idx =
     (if list_all (\<lambda>(p, rq). rq_method rq \<noteq> None) (entries_from pre k items)
      then Inr (foldl insert_new idx (keyed (entries_from pre k items)))
      else Inl (KeyError ''method''))"
proof (induction pre k items idx rule: index_items.induct)
  case (1 pre k idx)
  show ?case by (simp add: keyed_def)
next
  case (2 pre k it rest idx)
  show ?case
  proof (cases "item_request it")
    case None
    show ?thesis
    proof (cases "item_children it")
      case cn: None
      with None "2.IH"(2) [of idx idx] show ?thesis
        by (simp add: keyed_def)
    next
      case (Some cs)
      with None "2.IH"(1) [of idx cs] "2.IH"(2) [of idx]
      show ?thesis
        by (simp add: keyed_def)
    qed
  next
    case (Some rq)
    show ?thesis
    proof (cases "rq_method rq")
      case None
      with Some show ?thesis
        by (simp add: request_unique_id_def)
    next
      case sm: (Some m)
      define idx1 where "idx1 = insert_new idx (entry_key rq, pre @ [k])"
      have uid: "request_unique_id rq = Inr (entry_key rq)"
        using sm by (simp add: request_unique_id_def entry_key_def)
      have idx1_eq: "(if map_of idx (entry_key rq) = None
          then idx @ [(entry_key rq, pre @ [k])] else idx) = idx1"
        by (simp add: idx1_def insert_new_def)
      show ?thesis
      proof (cases "item_children it")
        case None
        with Some uid "2.IH"(2) [of idx1 idx1] show ?thesis
          by (simp add: keyed_def idx1_eq idx1_def [symmetric] sm)
      next
        case sc: (Some cs)
        with Some uid "2.IH"(1) [of idx1 cs] "2.IH"(2) [of idx1]
        show ?thesis
          by (simp add: keyed_def idx1_eq idx1_def [symmetric] sm)
      qed
    qed
  qed
qed

lemma set_foldl_insert_new: "set (foldl insert_new idx kvs) \<subseteq> set idx \<union> set kvs"
proof (induction kvs arbitrary: idx)
  case Nil
  show ?case by simp
next
  case (Cons kv kvs)
  have "set (insert_new idx kv) \<subseteq> set idx \<union> {kv}"
    by (auto simp: insert_new_def)
  with Cons [of "insert_new idx kv"] show ?case
    by auto
qed

lemma map_of_foldl_insert_new: "map_of (foldl insert_new idx kvs) = map_of (idx @ kvs)"
proof (induction kvs arbitrary: idx)
  case Nil
  show ?case by simp
next
  case (Cons kv kvs)
  obtain k v where kv: "kv = (k, v)" by (cases kv)
  show ?case
  proof (cases "map_of idx k")
    case None
    with kv Cons [of "idx @ [kv]"] show ?thesis
      by (simp add: insert_new_def)
  next
    case (Some w)
    have "map_of (idx @ kv # kvs) = map_of (idx @ kvs)"
    proof
      fix u show "map_of (idx @ kv # kvs) u = map_of (idx @ kvs) u"
        using Some kv by (cases "map_of idx u") (auto simp: map_add_def)
    qed
    with Some kv Cons [of idx] show ?thesis
      by (simp add: insert_new_def)
  qed
qed

lemma distinct_foldl_insert_new:
  "distinct (map fst idx) \<Longrightarrow> distinct (map fst (foldl insert_new idx kvs))"
proof (induction kvs arbitrary: idx)
  case Nil
  then show ?case by simp
next
  case (Cons kv kvs)
  have "distinct (map fst (insert_new idx kv))"
    using Cons.prems by (auto simp: insert_new_def map_of_eq_None_iff)
  then show ?case
    using Cons.IH by simp
qed

lemma index_requests_eq:
  "index_requests items =
     (if list_all (\<lambda>(p, rq). rq_method rq \<noteq> None) (entries_dfs items)
      then Inr (foldl insert_new [] (keyed (entries_dfs items)))
      else Inl (KeyError ''method''))"
  by (simp add: index_requests_def entries_dfs_def index_items_eq)

lemma index_requests_place:
  assumes "index_requests items = Inr idx"
    and "(uid, p) \<in> set idx"
  shows "\<exists>it rq. get_item items p = Some it \<and> item_request it = Some rq
           \<and> request_unique_id rq = Inr uid"
proof -
  from assms(1) have all: "list_all (\<lambda>(p, rq). rq_method rq \<noteq> None) (entries_dfs items)"
    and idx: "idx = foldl insert_new [] (keyed (entries_dfs items))"
    by (auto simp: index_requests_eq split: if_splits)
  from assms(2) idx set_foldl_insert_new [of "[]" "keyed (entries_dfs items)"]
  have "(uid, p) \<in> set (keyed (entries_dfs items))"
    by auto
  then obtain rq where rq: "(p, rq) \<in> set (entries_dfs items)" "uid = entry_key rq"
    by (auto simp: keyed_def)
  with all have "rq_method rq \<noteq> None"
    by (auto simp: list_all_iff)
  with rq(2) have "request_unique_id rq = Inr uid"
    by (auto simp: request_unique_id_def entry_key_def)
  with rq(1) show ?thesis
    by (auto simp: entries_dfs_iff)
qed

lemma index_requests_map_of:
  assumes "index_requests items = Inr idx"
    and "map_of idx uid = Some p"
  shows "\<exists>it rq. get_item items p = Some it \<and> item_request it = Some rq
           \<and> request_unique_id rq = Inr uid"
  using index_requests_place [OF assms(1)] map_of_SomeD [OF assms(2)] by blast

subsection \<open>What the update, insertion and deprecation passes leave alone\<close>

lemma same_node_refl [simp]: "same_node x x"
  by (simp add: same_node_def)

lemma same_node_trans: "same_node x y \<Longrightarrow> same_node y z \<Longrightarrow> same_node x z"
  by (simp add: same_node_def)

lemma item_children_set_children [simp]: "item_children (set_children x cs) = Some cs"
  by (cases x) simp

lemma same_node_set_children [simp]:
  "item_children x = Some cs \<Longrightarrow> same_node x (set_children x cs')"
  by (cases x) (simp add: same_node_def)

lemma ref_cases [case_names Nil One More]:
  "(q = [] \<Longrightarrow> P) \<Longrightarrow> (\<And>i. q = [i] \<Longrightarrow> P) \<Longrightarrow> (\<And>i j q'. q = i # j # q' \<Longrightarrow> P) \<Longrightarrow> P"
  by (metis neq_Nil_conv)

lemma get_item_upd_item_same:
  "get_item items p = Some x \<Longrightarrow> get_item (upd_item f p items) p = Some (f x)"
proof (induction items p arbitrary: x rule: get_item.induct)
  case (1 its)
  then show ?case by simp
next
  case (2 its i)
  then show ?case by (simp split: if_splits)
next
  case (3 its i j p)
  then show ?case
    by (auto split: if_splits option.splits)
qed

lemma get_item_upd_item_other:
  assumes "\<And>y. item_children (f y) = item_children y"
    and "p \<noteq> q"
    and "get_item items p = Some x"
  shows "\<exists>x'. get_item (upd_item f q items) p = Some x' \<and> same_node x x'"
  using assms(2,3)
proof (induction items p arbitrary: x q rule: get_item.induct)
  case (1 its)
  then show ?case by simp
next
  case (2 its i)
  show ?case
  proof (cases q rule: ref_cases)
    case Nil
    with 2 show ?thesis by simp
  next
    case (One i')
    with "2.prems" show ?thesis
      by (auto split: if_splits simp: nth_list_update)
  next
    case (More i' j' q')
    with "2.prems" show ?thesis
      by (auto split: if_splits option.splits simp: nth_list_update)
  qed
next
  case (3 its i j p)
  show ?case
  proof (cases q rule: ref_cases)
    case Nil
    with 3 show ?thesis by simp
  next
    case (One i')
    with "3.prems" assms(1) show ?thesis
      by (auto split: if_splits option.splits simp: nth_list_update)
  next
    case c3: (More i' j' q')
    show ?thesis
    proof (cases "i' = i")
      case False
      with c3 "3.prems" show ?thesis
        by (auto split: if_splits option.splits simp: nth_list_update)
    next
      case True
      from "3.prems" obtain cs where cs: "i < length its" "item_children (its ! i) = Some cs"
        "get_item cs (j # p) = Some x"
        by (auto split: if_splits option.splits)
      from True c3 "3.prems" have ne: "j # p \<noteq> j' # q'"
        by auto
      from "3.IH" [OF cs(1,2) ne cs(3)]
      obtain x' where "get_item (upd_item f (j' # q') cs) (j # p) = Some x'" "same_node x x'"
        by blast
      with True c3 cs show ?thesis
        by simp
    qed
  qed
qed

lemma engine_touched_refl [simp]: "engine_touched x x"
  by (simp add: engine_touched_def)

lemma engine_touched_trans:
  assumes "engine_touched x y" and "engine_touched y z"
  shows "engine_touched x z"
proof -
  from assms obtain e1 e2 where "events_of y = events_of x @ e1" "set e1 \<subseteq> {auth_event}"
    "events_of z = events_of y @ e2" "set e2 \<subseteq> {auth_event}"
    by (auto simp: engine_touched_def)
  then have "events_of z = events_of x @ (e1 @ e2) \<and> set (e1 @ e2) \<subseteq> {auth_event}"
    by simp
  then have "\<exists>extra. events_of z = events_of x @ extra \<and> set extra \<subseteq> {auth_event}"
    by blast
  with assms show ?thesis
    by (simp add: engine_touched_def)
qed

lemma same_node_touched: "same_node x x' \<Longrightarrow> engine_touched x x'"
  by (simp add: same_node_def engine_touched_def events_of_def header_of_def)

lemma engine_touched_ensure_auth_prerequest: "engine_touched it (ensure_auth_prerequest it)"
  by (cases it) (auto simp: engine_touched_def ensure_auth_prerequest_def Let_def events_of_def
      header_of_def auth_event_def split: option.splits)

lemma item_children_update_request [simp]:
  "item_children (update_request ev t r it) = item_children it"
  by (cases it) (simp add: update_request_def Let_def split: option.splits)

lemma engine_touched_update_request: "engine_touched it (update_request ev t r it)"
proof -
  define it1 where "it1 = (case item_request it of
           None \<Rightarrow> it
         | Some rq \<Rightarrow>
             (let current_desc = (case rq_description rq of None \<Rightarrow> [] | Some d \<Rightarrow> d);
                  base_desc = (if py_contains ''_Last synced:'' current_desc
                               then py_rstrip (py_before_first ''_Last synced:'' current_desc)
                               else current_desc);
                  base_desc1 = (case route_description r of
                                  None \<Rightarrow> base_desc
                                | Some d \<Rightarrow> if base_desc = [] then d else base_desc)
              in set_request it
                   (Request (Some (method_value (r_method r)))
                            (Some (build_url (full_path r)))
                            (Some (base_desc1 @ sync_note ev t))
                            (rq_header rq))))"
  have a: "engine_touched it it1"
    by (cases it) (auto simp: it1_def engine_touched_def Let_def events_of_def header_of_def
        split: option.splits)
  have "update_request ev t r it = (if route_protected r then ensure_auth_prerequest it1 else it1)"
    by (simp add: update_request_def it1_def)
  with a engine_touched_ensure_auth_prerequest [of it1] show ?thesis
    by (auto intro: engine_touched_trans)
qed

lemma item_children_mark_item [simp]: "item_children (mark_item ev t it) = item_children it"
  by (cases it) (simp add: mark_item_def split: option.splits)

lemma engine_touched_mark_item: "engine_touched it (mark_item ev t it)"
  by (cases it) (auto simp: mark_item_def engine_touched_def events_of_def header_of_def
      split: option.splits)

text \<open>Appending to the top-level list, or to the children of a top-level item.\<close>

lemma get_item_append_top:
  "get_item items p = Some x \<Longrightarrow> get_item (items @ ys) p = Some x"
  by (cases p rule: ref_cases) (auto simp: nth_append split: if_splits)

lemma get_item_append_same_depth:
  "get_item cs q = Some x \<Longrightarrow> get_item (cs @ ys) q = Some x"
  by (rule get_item_append_top)

lemma same_node_append_child [simp]: "same_node x (append_child new x)"
  by (simp add: append_child_def split: option.splits)

lemma get_item_append_child:
  assumes "get_item items p = Some x"
  shows "\<exists>x'. get_item (items[i := append_child new (items ! i)]) p = Some x' \<and> same_node x x'"
proof (cases p rule: ref_cases)
  case Nil
  with assms show ?thesis by simp
next
  case (One j)
  with assms show ?thesis
    by (cases "j = i") (auto split: if_splits)
next
  case (More j k q)
  show ?thesis
  proof (cases "j = i")
    case False
    with More assms show ?thesis
      by (auto simp: nth_list_update split: if_splits option.splits)
  next
    case True
    from More assms obtain cs where cs: "j < length items" "item_children (items ! j) = Some cs"
      "get_item cs (k # q) = Some x"
      by (auto split: if_splits option.splits)
    then have "get_item (cs @ [new]) (k # q) = Some x"
      by (simp add: get_item_append_top)
    with True More cs show ?thesis
      by (simp add: append_child_def)
  qed
qed

lemma find_folder_Some: "find_folder n items = Some i \<Longrightarrow> i < length items \<and> item_name (items ! i) = Some n \<and> item_children (items ! i) \<noteq> None"
proof (induction items arbitrary: i)
  case Nil
  then show ?case by simp
next
  case (Cons a items)
  then show ?case
    by (cases i) (auto split: if_splits)
qed

lemma add_request_frame:
  assumes "add_request ev t items r = (items1, t1)"
    and "get_item items p = Some x"
  shows "\<exists>x'. get_item items1 p = Some x' \<and> same_node x x'"
proof (cases "find_folder (folder_name r) items")
  case None
  define items0 where "items0 = items @ [new_folder (folder_name r)]"
  have "get_item items0 p = Some x"
    using assms(2) by (simp add: items0_def get_item_append_top)
  from get_item_append_child [OF this, of "length items" "new_request_item ev t r"]
  show ?thesis
    using assms(1) None by (auto simp: add_request_def items0_def)
next
  case (Some i)
  from get_item_append_child [OF assms(2), of i "new_request_item ev t r"]
  show ?thesis
    using assms(1) Some by (auto simp: add_request_def)
qed

lemma ensure_loop_frame:
  "get_item items p = Some x \<Longrightarrow> get_item (ensure_loop ex ns items) p = Some x"
  by (induction ns arbitrary: items) (simp_all add: get_item_append_top)

lemma item_event_update_request:
  "\<not> route_protected r \<Longrightarrow> item_event (update_request ev t r it) = item_event it"
  by (cases it) (simp add: update_request_def Let_def split: option.splits)

lemma update_step_frame:
  assumes "get_item items p = Some x"
  shows "\<exists>x1. get_item (upd_item (update_request ev t r) q items) p = Some x1
           \<and> engine_touched x x1 \<and> (p \<noteq> q \<longrightarrow> same_node x x1)
           \<and> (\<not> route_protected r \<longrightarrow> item_event x1 = item_event x)"
proof (cases "p = q")
  case True
  with get_item_upd_item_same [OF assms, of "update_request ev t r"]
  show ?thesis
    by (simp add: engine_touched_update_request item_event_update_request)
next
  case False
  from get_item_upd_item_other [of "update_request ev t r", OF _ False assms]
  obtain x' where "get_item (upd_item (update_request ev t r) q items) p = Some x'" "same_node x x'"
    by auto
  with False show ?thesis
    by (auto simp: same_node_touched) (simp add: same_node_def)
qed

lemma process_routes_frame:
  assumes "process_routes ev idx routes (items, t, res) = (items', t', res')"
    and "get_item items p = Some x"
  shows "\<exists>x'. get_item items' p = Some x' \<and> engine_touched x x'
           \<and> ((\<forall>r \<in> set routes. map_of idx (unique_id r) \<noteq> Some p) \<longrightarrow> same_node x x')
           \<and> ((\<forall>r \<in> set routes. map_of idx (unique_id r) = Some p \<longrightarrow> \<not> route_protected r)
                \<longrightarrow> item_event x' = item_event x)"
  using assms
proof (induction routes arbitrary: items t res x)
  case Nil
  then show ?case by simp
next
  case (Cons r routes)
  show ?case
  proof (cases "map_of idx (unique_id r)")
    case None
    obtain items1 t1 where ar: "add_request ev t items r = (items1, t1)"
      by (cases "add_request ev t items r")
    from add_request_frame [OF ar Cons.prems(2)]
    obtain x1 where x1: "get_item items1 p = Some x1" "same_node x x1"
      by blast
    from Cons.prems(1) None ar
    have "process_routes ev idx routes (items1, t1, res\<lparr>routes_added := routes_added res @ [r]\<rparr>)
        = (items', t', res')"
      by simp
    from Cons.IH [OF this x1(1)] obtain x' where x': "get_item items' p = Some x'"
      "engine_touched x1 x'"
      "(\<forall>r \<in> set routes. map_of idx (unique_id r) \<noteq> Some p) \<longrightarrow> same_node x1 x'"
      "(\<forall>r \<in> set routes. map_of idx (unique_id r) = Some p \<longrightarrow> \<not> route_protected r)
                \<longrightarrow> item_event x' = item_event x1"
      by blast
    have "engine_touched x x'"
      using x1(2) x'(2) by (blast intro: engine_touched_trans same_node_touched)
    moreover have "(\<forall>r \<in> set (r # routes). map_of idx (unique_id r) \<noteq> Some p) \<longrightarrow> same_node x x'"
      using x1(2) x'(3) by (auto intro: same_node_trans)
    moreover have "(\<forall>r \<in> set (r # routes). map_of idx (unique_id r) = Some p \<longrightarrow> \<not> route_protected r)
                \<longrightarrow> item_event x' = item_event x"
      using x1(2) x'(4) by (auto simp: same_node_def)
    ultimately show ?thesis
      using x'(1) by blast
  next
    case (Some q)
    from update_step_frame [OF Cons.prems(2), of ev t r q]
    obtain x1 where x1: "get_item (upd_item (update_request ev t r) q items) p = Some x1"
      "engine_touched x x1" "p \<noteq> q \<longrightarrow> same_node x x1"
      "\<not> route_protected r \<longrightarrow> item_event x1 = item_event x"
      by blast
    from Cons.prems(1) Some
    have "process_routes ev idx routes
        (upd_item (update_request ev t r) q items, Suc t, res\<lparr>routes_updated := routes_updated res @ [r]\<rparr>)
        = (items', t', res')"
      by simp
    from Cons.IH [OF this x1(1)] obtain x' where x': "get_item items' p = Some x'"
      "engine_touched x1 x'"
      "(\<forall>r \<in> set routes. map_of idx (unique_id r) \<noteq> Some p) \<longrightarrow> same_node x1 x'"
      "(\<forall>r \<in> set routes. map_of idx (unique_id r) = Some p \<longrightarrow> \<not> route_protected r)
                \<longrightarrow> item_event x' = item_event x1"
      by blast
    have "engine_touched x x'"
      using x1(2) x'(2) by (blast intro: engine_touched_trans)
    moreover have "(\<forall>r \<in> set (r # routes). map_of idx (unique_id r) \<noteq> Some p) \<longrightarrow> same_node x x'"
      using x1(3) x'(3) Some by (auto intro: same_node_trans)
    moreover have "(\<forall>r \<in> set (r # routes). map_of idx (unique_id r) = Some p \<longrightarrow> \<not> route_protected r)
                \<longrightarrow> item_event x' = item_event x"
      using x1(3,4) x'(4) Some by (auto simp: same_node_def)
    ultimately show ?thesis
      using x'(1) by blast
  qed
qed

lemma marked_same_node: "same_node x x' \<Longrightarrow> marked x' = marked x"
  by (simp add: marked_def same_node_def request_description_def)

lemma item_event_mark_item [simp]: "item_event (mark_item ev t it) = item_event it"
  by (cases it) (simp add: mark_item_def split: option.splits)

lemma mark_step_frame:
  assumes "get_item items p = Some x"
  shows "\<exists>x1. get_item (upd_item (mark_item ev t) q items) p = Some x1
           \<and> engine_touched x x1 \<and> (p \<noteq> q \<longrightarrow> same_node x x1)
           \<and> item_event x1 = item_event x"
proof (cases "p = q")
  case True
  with get_item_upd_item_same [OF assms, of "mark_item ev t"]
  show ?thesis
    by (simp add: engine_touched_mark_item)
next
  case False
  from get_item_upd_item_other [of "mark_item ev t", OF _ False assms]
  obtain x' where "get_item (upd_item (mark_item ev t) q items) p = Some x'" "same_node x x'"
    by auto
  with False show ?thesis
    by (auto simp: same_node_touched) (simp add: same_node_def)
qed

lemma mark_deprecated_frame:
  assumes "mark_deprecated ev ids idx (items, t, d) = (items', t', d')"
    and "get_item items p = Some x"
  shows "\<exists>x'. get_item items' p = Some x' \<and> engine_touched x x'
           \<and> item_event x' = item_event x
           \<and> (marked x \<or> (\<forall>uid. (uid, p) \<in> set idx \<longrightarrow> uid \<in> set ids) \<longrightarrow> same_node x x')"
  using assms
proof (induction idx arbitrary: items t d x)
  case Nil
  then show ?case by simp
next
  case (Cons a idx)
  obtain uid q where a: "a = (uid, q)"
    by (cases a)
  show ?case
  proof (cases "uid \<notin> set ids \<and> (\<exists>it. get_item items q = Some it \<and> \<not> marked it)")
    case False
    with Cons.prems(1) a
    have "mark_deprecated ev ids idx (items, t, d) = (items', t', d')"
      by (auto simp: marked_def split: option.splits if_splits)
    from Cons.IH [OF this Cons.prems(2)] obtain x' where x': "get_item items' p = Some x'"
      "engine_touched x x'" "item_event x' = item_event x"
      "marked x \<or> (\<forall>uid. (uid, p) \<in> set idx \<longrightarrow> uid \<in> set ids) \<longrightarrow> same_node x x'"
      by blast
    then show ?thesis
      by auto
  next
    case True
    then obtain it where it: "uid \<notin> set ids" "get_item items q = Some it" "\<not> marked it"
      by blast
    from mark_step_frame [OF Cons.prems(2), of ev t q]
    obtain x1 where x1: "get_item (upd_item (mark_item ev t) q items) p = Some x1"
      "engine_touched x x1" "p \<noteq> q \<longrightarrow> same_node x x1" "item_event x1 = item_event x"
      by blast
    from Cons.prems(1) a it
    have "mark_deprecated ev ids idx (upd_item (mark_item ev t) q items, Suc t, d @ [uid])
        = (items', t', d')"
      by (simp add: marked_def)
    from Cons.IH [OF this x1(1)] obtain x' where x': "get_item items' p = Some x'"
      "engine_touched x1 x'" "item_event x' = item_event x1"
      "marked x1 \<or> (\<forall>uid. (uid, p) \<in> set idx \<longrightarrow> uid \<in> set ids) \<longrightarrow> same_node x1 x'"
      by blast
    have "engine_touched x x'"
      using x1(2) x'(2) by (blast intro: engine_touched_trans)
    moreover have "marked x \<or> (\<forall>uid. (uid, p) \<in> set (a # idx) \<longrightarrow> uid \<in> set ids) \<longrightarrow> same_node x x'"
    proof
      assume h: "marked x \<or> (\<forall>uid. (uid, p) \<in> set (a # idx) \<longrightarrow> uid \<in> set ids)"
      have ne: "p \<noteq> q"
      proof
        assume "p = q"
        with h it Cons.prems(2) a show False by auto
      qed
      with x1(3) have s1: "same_node x x1" by simp
      then have "marked x1 = marked x" by (rule marked_same_node)
      with h x'(4) have "same_node x1 x'" by auto
      with s1 show "same_node x x'" by (rule same_node_trans)
    qed
    ultimately show ?thesis
      using x'(1,3) x1(4) by auto
  qed
qed

lemma ensure_folders_frame:
  "ensure_folders items ns = Inr items1 \<Longrightarrow> get_item items p = Some x \<Longrightarrow> get_item items1 p = Some x"
  by (auto simp: ensure_folders_def ensure_loop_frame split: sum.splits)

lemma merge_steps_frame:
  assumes "merge_steps ev items routes = Inr (items3, t3, res3)"
    and "get_item items p = Some x"
  shows "\<exists>x3. get_item items3 p = Some x3 \<and> engine_touched x x3
           \<and> (item_request x = None \<longrightarrow> same_node x x3)
           \<and> (\<forall>rq u. item_request x = Some rq \<and> request_unique_id rq = Inr u
                 \<and> u \<notin> unique_id ` set routes \<and> marked x \<longrightarrow> same_node x x3)
           \<and> (\<forall>rq u. item_request x = Some rq \<and> request_unique_id rq = Inr u
                 \<and> (\<forall>r \<in> set routes. unique_id r = u \<longrightarrow> \<not> route_protected r)
                 \<longrightarrow> item_event x3 = item_event x)"
proof -
  from assms(1) obtain idx items1 items2 t2 res2 d where
    idx: "index_requests items = Inr idx"
    and ens: "ensure_folders items (map fst (organize_by_folder (new_routes idx routes))) = Inr items1"
    and loop: "process_routes ev idx routes (items1, 1, new_sync_result (utcnow ev 0)) = (items2, t2, res2)"
    and mark: "mark_deprecated ev (map unique_id routes) idx (items2, t2, []) = (items3, t3, d)"
    by (auto simp: merge_steps_def Let_def split: sum.splits prod.splits)
  have x1: "get_item items1 p = Some x"
    using ens assms(2) by (rule ensure_folders_frame)
  from process_routes_frame [OF loop x1] obtain x2 where x2: "get_item items2 p = Some x2"
    "engine_touched x x2"
    "(\<forall>r \<in> set routes. map_of idx (unique_id r) \<noteq> Some p) \<longrightarrow> same_node x x2"
    "(\<forall>r \<in> set routes. map_of idx (unique_id r) = Some p \<longrightarrow> \<not> route_protected r)
        \<longrightarrow> item_event x2 = item_event x"
    by blast
  from mark_deprecated_frame [OF mark x2(1)] obtain x3 where x3: "get_item items3 p = Some x3"
    "engine_touched x2 x3" "item_event x3 = item_event x2"
    "marked x2 \<or> (\<forall>uid. (uid, p) \<in> set idx \<longrightarrow> uid \<in> set (map unique_id routes)) \<longrightarrow> same_node x2 x3"
    by blast
  have key: "request_unique_id rq = Inr uid" if "(uid, p) \<in> set idx" "item_request x = Some rq" for uid rq
    using index_requests_place [OF idx that(1)] assms(2) that(2) by auto
  have noreq: "(uid, p) \<notin> set idx" if "item_request x = None" for uid
    using index_requests_place [OF idx, of uid p] assms(2) that by auto
  have a: "engine_touched x x3"
    using x2(2) x3(2) by (rule engine_touched_trans)
  have b: "same_node x x3" if "item_request x = None"
  proof -
    have "\<forall>r \<in> set routes. map_of idx (unique_id r) \<noteq> Some p"
      using noreq [OF that] by (auto dest: map_of_SomeD)
    with x2(3) have "same_node x x2" by simp
    moreover have "same_node x2 x3"
      using x3(4) noreq [OF that] by simp
    ultimately show ?thesis by (rule same_node_trans)
  qed
  have c: "same_node x x3"
    if "item_request x = Some rq" "request_unique_id rq = Inr u" "u \<notin> unique_id ` set routes" "marked x"
    for rq u
  proof -
    have "\<forall>r \<in> set routes. map_of idx (unique_id r) \<noteq> Some p"
    proof
      fix r assume r: "r \<in> set routes"
      show "map_of idx (unique_id r) \<noteq> Some p"
      proof
        assume "map_of idx (unique_id r) = Some p"
        then have "(unique_id r, p) \<in> set idx" by (rule map_of_SomeD)
        from key [OF this that(1)] that(2) have "unique_id r = u" by simp
        with r that(3) show False by auto
      qed
    qed
    with x2(3) have s: "same_node x x2" by simp
    then have "marked x2" using that(4) by (simp add: marked_same_node)
    with x3(4) have "same_node x2 x3" by simp
    with s show ?thesis by (rule same_node_trans)
  qed
  have d: "item_event x3 = item_event x"
    if "item_request x = Some rq" "request_unique_id rq = Inr u"
      "\<forall>r \<in> set routes. unique_id r = u \<longrightarrow> \<not> route_protected r"
    for rq u
  proof -
    have "\<forall>r \<in> set routes. map_of idx (unique_id r) = Some p \<longrightarrow> \<not> route_protected r"
    proof (intro ballI impI)
      fix r assume r: "r \<in> set routes" "map_of idx (unique_id r) = Some p"
      then have "(unique_id r, p) \<in> set idx" by (auto dest: map_of_SomeD)
      from key [OF this that(1)] that(2) have "unique_id r = u" by simp
      with r that(3) show "\<not> route_protected r" by auto
    qed
    with x2(4) x3(3) show ?thesis by simp
  qed
  have c': "\<forall>rq u. item_request x = Some rq \<and> request_unique_id rq = Inr u
                 \<and> u \<notin> unique_id ` set routes \<and> marked x \<longrightarrow> same_node x x3"
    using c by blast
  have d': "\<forall>rq u. item_request x = Some rq \<and> request_unique_id rq = Inr u
                 \<and> (\<forall>r \<in> set routes. unique_id r = u \<longrightarrow> \<not> route_protected r)
                 \<longrightarrow> item_event x3 = item_event x"
    using d by blast
  show ?thesis
    using a b c' d' x3(1) by (intro exI [of _ x3] conjI impI) assumption+
qed

subsection \<open>The expiry pass\<close>

lemma deprecated_and_old_cong:
  assumes "item_request x = item_request y"
  shows "deprecated_and_old ev c x = deprecated_and_old ev c y"
proof -
  have h: "request_description x = request_description y"
    using assms by (simp add: request_description_def)
  show ?thesis
    unfolding deprecated_and_old_def assms h by (rule refl)
qed

lemma deprecated_and_old_group [simp]:
  "item_request x = None \<Longrightarrow> deprecated_and_old ev c x = Inr None"
  by (simp add: deprecated_and_old_def)

lemma process_items_append:
  "process_items ev c (xs @ ys) =
     (case process_items ev c xs of
        Inl e \<Rightarrow> Inl e
      | Inr (fx, rx, lx) \<Rightarrow>
          (case process_items ev c ys of
             Inl e \<Rightarrow> Inl e
           | Inr (fy, ry, ly) \<Rightarrow> Inr (fx @ fy, rx @ ry, lx @ ly)))"
  by (induction xs) (auto split: sum.splits option.splits prod.splits)

lemma kept_item_mono: "kept_item ev c x y rm \<Longrightarrow> set rm \<subseteq> set rm' \<Longrightarrow> kept_item ev c x y rm'"
  unfolding kept_item_def by blast

lemma process_items_Cons_Inr [consumes 1, case_names removed leaf folder]:
  assumes "process_items ev c (it # rest) = Inr (out, rm, lg)"
  obtains
    u f r l where "deprecated_and_old ev c it = Inr (Some u)"
      "process_items ev c rest = Inr (f, r, l)"
      "out = f" "rm = u # r" "lg = RemovedOldDeprecated u # l"
  | f where "deprecated_and_old ev c it = Inr None" "item_children it = None"
      "process_items ev c rest = Inr (f, rm, lg)" "out = it # f"
  | cs cs' rmc lgc f r l where "deprecated_and_old ev c it = Inr None"
      "item_children it = Some cs" "process_items ev c cs = Inr (cs', rmc, lgc)"
      "process_items ev c rest = Inr (f, r, l)"
      "out = set_children it cs' # f" "rm = rmc @ r" "lg = lgc @ l"
proof (cases "deprecated_and_old ev c it")
  case (Inl e)
  with assms show ?thesis by simp
next
  case (Inr d)
  show ?thesis
  proof (cases d)
    case (Some u)
    with Inr assms that(1) show ?thesis
      by (cases "process_items ev c rest") auto
  next
    case None
    show ?thesis
    proof (cases "item_children it")
      case cn: None
      with None Inr assms that(2) show ?thesis
        by (cases "process_items ev c rest") auto
    next
      case (Some cs)
      show ?thesis
      proof (cases "process_items ev c cs")
        case il: (Inl e)
        with Some None Inr assms show ?thesis by simp
      next
        case ir: (Inr res)
        obtain cs' rmc lgc where res: "res = (cs', rmc, lgc)" by (cases res)
        with ir Some None Inr assms that(3) show ?thesis
          by (cases "process_items ev c rest") auto
      qed
    qed
  qed
qed

lemma process_items_keep:
  assumes "process_items ev c items = Inr (out, rm, lg)"
    and "i < length items"
    and "deprecated_and_old ev c (items ! i) = Inr None"
  shows "\<exists>i'. i' < length out \<and> kept_item ev c (items ! i) (out ! i') rm"
  using assms
proof (induction items arbitrary: i out rm lg)
  case Nil
  then show ?case by simp
next
  case (Cons it rest)
  from Cons.prems(1) show ?case
  proof (cases rule: process_items_Cons_Inr)
    case (removed u f r l)
    with Cons.prems obtain j where j: "i = Suc j"
      by (cases i) auto
    with Cons.prems have "j < length rest" "deprecated_and_old ev c (rest ! j) = Inr None"
      by simp_all
    from Cons.IH [OF removed(2) this] obtain i' where i': "i' < length f"
      "kept_item ev c (rest ! j) (f ! i') r"
      by blast
    from kept_item_mono [OF i'(2), of rm] removed(4)
    have "kept_item ev c (rest ! j) (f ! i') rm"
      by auto
    with i'(1) removed j show ?thesis
      by auto
  next
    case (leaf f)
    show ?thesis
    proof (cases i)
      case 0
      with leaf show ?thesis
        by (auto simp: kept_item_def intro!: exI [of _ 0])
    next
      case (Suc j)
      with Cons.prems have "j < length rest" "deprecated_and_old ev c (rest ! j) = Inr None"
        by simp_all
      from Cons.IH [OF leaf(3) this] obtain i' where "i' < length f"
        "kept_item ev c (rest ! j) (f ! i') rm"
        by blast
      with leaf Suc show ?thesis
        by (auto intro!: exI [of _ "Suc i'"])
    qed
  next
    case (folder cs cs' rmc lgc f r l)
    show ?thesis
    proof (cases i)
      case 0
      with folder show ?thesis
        by (auto simp: kept_item_def intro!: exI [of _ 0])
    next
      case (Suc j)
      with Cons.prems have "j < length rest" "deprecated_and_old ev c (rest ! j) = Inr None"
        by simp_all
      from Cons.IH [OF folder(4) this] obtain i' where i': "i' < length f"
        "kept_item ev c (rest ! j) (f ! i') r"
        by blast
      then have "kept_item ev c (rest ! j) (f ! i') rm"
        using folder(6) by (auto intro: kept_item_mono)
      with i' folder Suc show ?thesis
        by (auto intro!: exI [of _ "Suc i'"])
    qed
  qed
qed

lemma process_items_remove:
  assumes "process_items ev c items = Inr (out, rm, lg)"
    and "i < length items"
    and "deprecated_and_old ev c (items ! i) = Inr (Some u)"
  shows "u \<in> set rm \<and> RemovedOldDeprecated u \<in> set lg"
  using assms
proof (induction items arbitrary: i out rm lg)
  case Nil
  then show ?case by simp
next
  case (Cons it rest)
  from Cons.prems(1) show ?case
  proof (cases rule: process_items_Cons_Inr)
    case (removed u' f r l)
    show ?thesis
    proof (cases i)
      case 0
      with removed Cons.prems show ?thesis by simp
    next
      case (Suc j)
      with Cons.prems have "j < length rest" "deprecated_and_old ev c (rest ! j) = Inr (Some u)"
        by simp_all
      from Cons.IH [OF removed(2) this] removed show ?thesis
        by simp
    qed
  next
    case (leaf f)
    with Cons.prems obtain j where j: "i = Suc j"
      by (cases i) auto
    with Cons.prems have "j < length rest" "deprecated_and_old ev c (rest ! j) = Inr (Some u)"
      by simp_all
    from Cons.IH [OF leaf(3) this] show ?thesis .
  next
    case (folder cs cs' rmc lgc f r l)
    with Cons.prems obtain j where j: "i = Suc j"
      by (cases i) auto
    with Cons.prems have "j < length rest" "deprecated_and_old ev c (rest ! j) = Inr (Some u)"
      by simp_all
    from Cons.IH [OF folder(4) this] folder show ?thesis
      by simp
  qed
qed

text \<open>Every item of the result was kept, and its children are a result of the pass.\<close>

lemma process_items_out:
  assumes "process_items ev c items = Inr (out, rm, lg)"
    and "y \<in> set out"
  shows "\<exists>x \<in> set items. deprecated_and_old ev c x = Inr None \<and> kept_item ev c x y rm"
  using assms
proof (induction items arbitrary: out rm lg)
  case Nil
  then show ?case by simp
next
  case (Cons it rest)
  from Cons.prems(1) show ?case
  proof (cases rule: process_items_Cons_Inr)
    case (removed u f r l)
    from Cons.IH [OF removed(2)] Cons.prems(2) removed(3)
    obtain x where x: "x \<in> set rest" "deprecated_and_old ev c x = Inr None" "kept_item ev c x y r"
      by blast
    from kept_item_mono [OF x(3), of rm] removed(4)
    have "kept_item ev c x y rm"
      by auto
    with x show ?thesis
      by auto
  next
    case (leaf f)
    show ?thesis
    proof (cases "y = it")
      case True
      with leaf show ?thesis
        by (auto simp: kept_item_def)
    next
      case False
      with Cons.IH [OF leaf(3)] Cons.prems(2) leaf(4) show ?thesis
        by auto
    qed
  next
    case (folder cs cs' rmc lgc f r l)
    show ?thesis
    proof (cases "y = set_children it cs'")
      case True
      with folder show ?thesis
        by (auto simp: kept_item_def)
    next
      case False
      with Cons.IH [OF folder(4)] Cons.prems(2) folder(5)
      obtain x where x: "x \<in> set rest" "deprecated_and_old ev c x = Inr None" "kept_item ev c x y r"
        by auto
      from kept_item_mono [OF x(3), of rm] folder(6)
      have "kept_item ev c x y rm"
        by auto
      with x show ?thesis
        by auto
    qed
  qed
qed

lemma get_item_Cons_children:
  "q \<noteq> [] \<Longrightarrow> i < length items \<Longrightarrow> item_children (items ! i) = Some cs \<Longrightarrow>
   get_item items (i # q) = get_item cs q"
  by (cases q) simp_all

lemma kept_above_step:
  assumes "kept_above ev c items (i # j # q)"
  shows "i < length items \<and> deprecated_and_old ev c (items ! i) = Inr None
         \<and> (\<forall>cs. item_children (items ! i) = Some cs \<longrightarrow> kept_above ev c cs (j # q))"
proof -
  have "strict_prefix [i] (i # j # q)"
    by (simp add: strict_prefix_def)
  with assms obtain a where "get_item items [i] = Some a" "deprecated_and_old ev c a = Inr None"
    unfolding kept_above_def by blast
  then have i: "i < length items" "deprecated_and_old ev c (items ! i) = Inr None"
    by (auto split: if_splits)
  have "kept_above ev c cs (j # q)" if cs: "item_children (items ! i) = Some cs" for cs
    unfolding kept_above_def
  proof (intro allI impI)
    fix q' assume q': "q' \<noteq> [] \<and> strict_prefix q' (j # q)"
    then have "i # q' \<noteq> [] \<and> strict_prefix (i # q') (i # j # q)"
      by (simp add: strict_prefix_def)
    with assms obtain a where "get_item items (i # q') = Some a"
      "deprecated_and_old ev c a = Inr None"
      unfolding kept_above_def by blast
    with q' i cs show "\<exists>a. get_item cs q' = Some a \<and> deprecated_and_old ev c a = Inr None"
      by (simp add: get_item_Cons_children)
  qed
  with i show ?thesis by blast
qed

lemma process_items_path_keep:
  assumes "process_items ev c items = Inr (out, rm, lg)"
    and "get_item items p = Some x"
    and "kept_above ev c items p"
    and "deprecated_and_old ev c x = Inr None"
  shows "\<exists>p' x'. get_item out p' = Some x' \<and> same_node x x'"
  using assms
proof (induction items p arbitrary: out rm lg rule: get_item.induct)
  case (1 its)
  then show ?case by simp
next
  case (2 its i)
  then have i: "i < length its" "its ! i = x"
    by (auto split: if_splits)
  from process_items_keep [OF "2.prems"(1) i(1)] i(2) "2.prems"(4)
  obtain i' where "i' < length out" "kept_item ev c x (out ! i') rm"
    by auto
  then have "get_item out [i'] = Some (out ! i') \<and> same_node x (out ! i')"
    by (simp add: kept_item_def)
  then show ?case by blast
next
  case (3 its i j p)
  from "3.prems"(2) obtain cs where cs: "i < length its" "item_children (its ! i) = Some cs"
    "get_item cs (j # p) = Some x"
    by (auto split: if_splits option.splits)
  from kept_above_step [OF "3.prems"(3)] cs
  have k: "deprecated_and_old ev c (its ! i) = Inr None" "kept_above ev c cs (j # p)"
    by auto
  from process_items_keep [OF "3.prems"(1) cs(1) k(1)] cs(2)
  obtain i' cs' rmc lgc where i': "i' < length out" "process_items ev c cs = Inr (cs', rmc, lgc)"
    "item_children (out ! i') = Some cs'"
    by (auto simp: kept_item_def)
  from "3.IH" [OF cs(1,2) i'(2) cs(3) k(2) "3.prems"(4)]
  obtain p' x' where p': "get_item cs' p' = Some x'" "same_node x x'"
    by blast
  then have "p' \<noteq> []" by auto
  with i' p' have "get_item out (i' # p') = Some x'"
    by (simp add: get_item_Cons_children)
  with p'(2) show ?case by blast
qed

lemma process_items_path_remove:
  assumes "process_items ev c items = Inr (out, rm, lg)"
    and "get_item items p = Some x"
    and "kept_above ev c items p"
    and "deprecated_and_old ev c x = Inr (Some u)"
  shows "u \<in> set rm"
  using assms
proof (induction items p arbitrary: out rm lg rule: get_item.induct)
  case (1 its)
  then show ?case by simp
next
  case (2 its i)
  then have i: "i < length its" "its ! i = x"
    by (auto split: if_splits)
  from process_items_remove [OF "2.prems"(1) i(1)] i(2) "2.prems"(4)
  show ?case by simp
next
  case (3 its i j p)
  from "3.prems"(2) obtain cs where cs: "i < length its" "item_children (its ! i) = Some cs"
    "get_item cs (j # p) = Some x"
    by (auto split: if_splits option.splits)
  from kept_above_step [OF "3.prems"(3)] cs
  have k: "deprecated_and_old ev c (its ! i) = Inr None" "kept_above ev c cs (j # p)"
    by auto
  from process_items_keep [OF "3.prems"(1) cs(1) k(1)] cs(2)
  obtain cs' rmc lgc where i': "process_items ev c cs = Inr (cs', rmc, lgc)" "set rmc \<subseteq> set rm"
    by (auto simp: kept_item_def)
  from "3.IH" [OF cs(1,2) i'(1) cs(3) k(2) "3.prems"(4)] i'(2)
  show ?case by auto
qed

lemma process_items_out_kept:
  assumes "process_items ev c items = Inr (out, rm, lg)"
    and "get_item out p = Some y"
  shows "deprecated_and_old ev c y = Inr None"
  using assms
proof (induction out p arbitrary: items rm lg rule: get_item.induct)
  case (1 its)
  then show ?case by simp
next
  case (2 its i)
  then have "y \<in> set its"
    by (auto split: if_splits)
  from process_items_out [OF "2.prems"(1) this]
  obtain x where "deprecated_and_old ev c x = Inr None" "same_node x y"
    by (auto simp: kept_item_def)
  then show ?case
    using deprecated_and_old_cong [of y x ev c] by (simp add: same_node_def)
next
  case (3 its i j p)
  from "3.prems"(2) obtain cs' where cs': "i < length its" "item_children (its ! i) = Some cs'"
    "get_item cs' (j # p) = Some y"
    by (auto split: if_splits option.splits)
  then have "its ! i \<in> set its" by simp
  from process_items_out [OF "3.prems"(1) this]
  obtain x where x: "same_node x (its ! i)"
    "\<forall>cs. item_children x = Some cs \<longrightarrow>
          (\<exists>cs' rmc lgc. process_items ev c cs = Inr (cs', rmc, lgc)
             \<and> item_children (its ! i) = Some cs' \<and> set rmc \<subseteq> set rm)"
    by (auto simp: kept_item_def)
  from x(1) cs'(2) obtain cs where "item_children x = Some cs"
    by (cases "item_children x") (auto simp: same_node_def)
  with x(2) cs'(2) obtain rmc lgc where "process_items ev c cs = Inr (cs', rmc, lgc)"
    by auto
  from "3.IH" [OF cs'(1,2) this cs'(3)] show ?case .
qed

lemma merge_Inr:
  assumes "merge m ev c routes = (c', Inr res)"
  obtains items3 t3 res3 out rm lg where
    "validate_postman_collection c = Inr ()"
    "merge_steps ev (collection_items c) routes = Inr (items3, t3, res3)"
    "process_items ev (cutoff_date_at m ev t3) items3 = Inr (out, rm, lg)"
    "c' = c\<lparr>coll_item := Some (ItemList out)\<rparr>"
    "res = res3\<lparr>routes_removed := routes_removed res3 @ rm\<rparr>"
proof -
  from assms obtain u where v: "validate_postman_collection c = Inr u"
    by (cases "validate_postman_collection c") (auto simp: merge_def)
  from assms v obtain items3 t3 res3 where
    st: "merge_steps ev (collection_items c) routes = Inr (items3, t3, res3)"
    by (cases "merge_steps ev (collection_items c) routes") (auto simp: merge_def)
  from assms v st obtain out rm lg where
    ex: "process_items ev (cutoff_date_at m ev t3) items3 = Inr (out, rm, lg)"
    by (cases "process_items ev (cutoff_date_at m ev t3) items3")
       (auto simp: merge_def remove_old_deprecated_def)
  from assms v st ex have "c' = c\<lparr>coll_item := Some (ItemList out)\<rparr>"
    "res = res3\<lparr>routes_removed := routes_removed res3 @ rm\<rparr>"
    by (auto simp: merge_def remove_old_deprecated_def)
  with v st ex that show ?thesis
    by simp
qed

lemma collection_items_update [simp]:
  "collection_items (c\<lparr>coll_item := Some (ItemList out)\<rparr>) = out"
  by (simp add: collection_items_def)

lemma groups_above_kept_above:
  assumes "merge_steps ev items routes = Inr (items3, t3, res3)"
    and "groups_above items p"
  shows "kept_above ev' c items3 p"
  unfolding kept_above_def
proof (intro allI impI)
  fix q assume "q \<noteq> [] \<and> strict_prefix q p"
  with assms(2) obtain a where a: "get_item items q = Some a" "item_request a = None"
    unfolding groups_above_def by blast
  from merge_steps_frame [OF assms(1) a(1)] obtain a3 where "get_item items3 q = Some a3"
    "engine_touched a a3"
    by blast
  with a(2) show "\<exists>a. get_item items3 q = Some a \<and> deprecated_and_old ev' c a = Inr None"
    by (auto simp: engine_touched_def)
qed

text \<open>The decision of the expiry pass for an entry with a marker of time \<open>T\<close>.\<close>

lemma deprecated_and_old_at:
  assumes "item_request x = Some rq" and "deprecated_at ev x T" and "request_unique_id rq = Inr u"
  shows "deprecated_and_old ev c x = (if T < c then Inr (Some u) else Inr None)"
  using assms
  by (auto simp: deprecated_and_old_def deprecated_at_def split: option.splits)

lemma merge_untouched_kept:
  assumes m: "merge m ev c routes = (c', Inr res)"
    and x: "get_item (collection_items c) p = Some x" "item_request x = Some rq"
    and mk: "marked x"
    and u: "request_unique_id rq = Inr u" "u \<notin> unique_id ` set routes"
    and g: "groups_above (collection_items c) p"
    and k: "\<forall>t. deprecated_and_old ev (cutoff_date_at m ev t) x = Inr None"
  shows "\<exists>p' x'. get_item (collection_items c') p' = Some x' \<and> same_node x x'"
proof -
  from m obtain items3 t3 res3 out rm lg where
    st: "merge_steps ev (collection_items c) routes = Inr (items3, t3, res3)"
    and ex: "process_items ev (cutoff_date_at m ev t3) items3 = Inr (out, rm, lg)"
    and c': "c' = c\<lparr>coll_item := Some (ItemList out)\<rparr>"
    by (rule merge_Inr)
  from merge_steps_frame [OF st x(1)] x(2) mk u
  obtain x3 where x3: "get_item items3 p = Some x3" "same_node x x3"
    by blast
  have ka: "kept_above ev (cutoff_date_at m ev t3) items3 p"
    using st g by (rule groups_above_kept_above)
  have "deprecated_and_old ev (cutoff_date_at m ev t3) x3 = Inr None"
    using k x3(2) deprecated_and_old_cong [of x3 x] by (simp add: same_node_def)
  from process_items_path_keep [OF ex x3(1) ka this]
  obtain p' x' where "get_item out p' = Some x'" "same_node x3 x'"
    by blast
  with x3(2) c' show ?thesis
    by (auto intro: same_node_trans)
qed

lemma merge_untouched_removed:
  assumes m: "merge m ev c routes = (c', Inr res)"
    and x: "get_item (collection_items c) p = Some x" "item_request x = Some rq"
    and mk: "marked x"
    and u: "request_unique_id rq = Inr u" "u \<notin> unique_id ` set routes"
    and g: "groups_above (collection_items c) p"
    and k: "\<forall>t. deprecated_and_old ev (cutoff_date_at m ev t) x = Inr (Some u)"
  shows "u \<in> set (routes_removed res)
         \<and> (\<forall>p' x'. get_item (collection_items c') p' = Some x' \<longrightarrow> item_request x' \<noteq> Some rq)"
proof -
  from m obtain items3 t3 res3 out rm lg where
    st: "merge_steps ev (collection_items c) routes = Inr (items3, t3, res3)"
    and ex: "process_items ev (cutoff_date_at m ev t3) items3 = Inr (out, rm, lg)"
    and c': "c' = c\<lparr>coll_item := Some (ItemList out)\<rparr>"
    and res: "res = res3\<lparr>routes_removed := routes_removed res3 @ rm\<rparr>"
    by (rule merge_Inr)
  from merge_steps_frame [OF st x(1)] x(2) mk u
  obtain x3 where x3: "get_item items3 p = Some x3" "same_node x x3"
    by blast
  have ka: "kept_above ev (cutoff_date_at m ev t3) items3 p"
    using st g by (rule groups_above_kept_above)
  have "deprecated_and_old ev (cutoff_date_at m ev t3) x3 = Inr (Some u)"
    using k x3(2) deprecated_and_old_cong [of x3 x] by (simp add: same_node_def)
  from process_items_path_remove [OF ex x3(1) ka this] res
  have a: "u \<in> set (routes_removed res)"
    by simp
  have b: "item_request x' \<noteq> Some rq" if "get_item (collection_items c') p' = Some x'" for p' x'
  proof
    assume "item_request x' = Some rq"
    with x(2) have "deprecated_and_old ev (cutoff_date_at m ev t3) x' = Inr (Some u)"
      using k deprecated_and_old_cong [of x' x] by simp
    moreover from that c' have "deprecated_and_old ev (cutoff_date_at m ev t3) x' = Inr None"
      using process_items_out_kept [OF ex] by simp
    ultimately show False by simp
  qed
  from a b show ?thesis by blast
qed

subsection \<open>The collection with one deprecated entry, evaluated\<close>

lemma users_index:
  "index_requests [Item (Some ''Users'') None (Some [deprecated_entry]) None None] =
     Inr [(''DELETE:/api/users/:id'', [0, 0])]"
  by (simp add: index_requests_def deprecated_entry_def request_unique_id_def url_or_empty_def
      build_url_def)

lemma deprecated_entry_marked: "marked deprecated_entry"
  by (simp add: marked_def deprecated_entry_def request_description_def deprecated_marker_def)

lemma users_steps:
  "merge_steps (env_at now) [Item (Some ''Users'') None (Some [deprecated_entry]) None None] [] =
     Inr ([Item (Some ''Users'') None (Some [deprecated_entry]) None None], 1, new_sync_result now)"
  using deprecated_entry_marked
  by (simp add: merge_steps_def users_index new_routes_def organize_by_folder_def
      ensure_folders_def marked_def)

lemma deprecated_entry_at: "deprecated_at (env_at now) deprecated_entry 0"
  by (simp add: deprecated_at_def deprecated_entry_def request_description_def deprecated_marker_def
      match_as_of_def iso_char_def py_isdigit_def fromisoformat_env_at)

lemma deprecated_entry_decision:
  "deprecated_and_old (env_at now) c deprecated_entry =
     (if 0 < c then Inr (Some ''DELETE:/api/users/:id'') else Inr None)"
proof -
  have "request_unique_id (Request (Some ''DELETE'') (Some (build_url ''/api/users/:id''))
                   (Some (''**DEPRECATED** (as of 2024-01-01T00:00:00)'' @ [CHR 0x0A, CHR 0x0A]
                          @ ''Removes a user''))
                   None) = Inr ''DELETE:/api/users/:id''"
    by (simp add: request_unique_id_def url_or_empty_def build_url_def)
  from deprecated_and_old_at [OF _ deprecated_entry_at this, of now c]
  show ?thesis
    by (simp add: deprecated_entry_def)
qed

lemma users_merge_29:
  "merge \<lparr>deprecation_days = 30\<rparr> (env_at (29 * day_us)) users_collection [] =
     (users_collection, Inr (new_sync_result (29 * day_us)))"
proof -
  have v: "validate_postman_collection users_collection = Inr ()"
    by (simp add: validate_postman_collection_def users_collection_def)
  have ci: "collection_items users_collection =
      [Item (Some ''Users'') None (Some [deprecated_entry]) None None]"
    by (simp add: collection_items_def users_collection_def)
  have dc: "item_children deprecated_entry = None"
    by (simp add: deprecated_entry_def)
  show ?thesis
    by (simp add: merge_def v ci users_steps remove_old_deprecated_def cutoff_date_at_def
        deprecated_entry_decision dc day_us_def new_sync_result_def)
       (simp add: users_collection_def)
qed


lemma users_merge_31:
  "merge \<lparr>deprecation_days = 30\<rparr> (env_at (31 * day_us)) users_collection [] =
     (users_collection\<lparr>coll_item := Some (ItemList [Item (Some ''Users'') None (Some []) None None])\<rparr>,
      Inr ((new_sync_result (31 * day_us))\<lparr>routes_removed := [''DELETE:/api/users/:id'']\<rparr>))"
proof -
  have v: "validate_postman_collection users_collection = Inr ()"
    by (simp add: validate_postman_collection_def users_collection_def)
  have ci: "collection_items users_collection =
      [Item (Some ''Users'') None (Some [deprecated_entry]) None None]"
    by (simp add: collection_items_def users_collection_def)
  show ?thesis
    by (simp add: merge_def v ci users_steps remove_old_deprecated_def cutoff_date_at_def
        deprecated_entry_decision day_us_def new_sync_result_def)
qed

lemma groups_above_depth_two:
  assumes "i < length items" and "item_request (items ! i) = None"
  shows "groups_above items [i, j]"
  unfolding groups_above_def
proof (intro allI impI)
  fix q assume "q \<noteq> [] \<and> strict_prefix q [i, j]"
  then have "q = [i]"
    by (cases q rule: ref_cases) (auto simp: strict_prefix_def)
  with assms show "\<exists>a. get_item items q = Some a \<and> item_request a = None"
    by simp
qed

subsection \<open>The shape of the document after the update loop\<close>

lemma length_upd_item [simp]: "length (upd_item f p items) = length items"
  by (cases p rule: ref_cases) (auto split: option.splits)

lemma organize_loop_keys:
  "fst ` set (organize_loop folders rs) = fst ` set folders \<union> folder_name ` set rs"
proof (induction rs arbitrary: folders)
  case Nil
  show ?case by simp
next
  case (Cons r rs)
  define folders1 where "folders1 =
    (if map_of folders (folder_name r) = None then folders @ [(folder_name r, [])] else folders)"
  define folders2 where "folders2 =
    map (\<lambda>(k, v). if k = folder_name r then (k, v @ [r]) else (k, v)) folders1"
  have "fst ` set folders2 = fst ` set folders1"
    by (force simp: folders2_def)
  moreover have "fst ` set folders1 = fst ` set folders \<union> {folder_name r}"
    by (auto simp: folders1_def map_of_eq_None_iff)
  moreover have "organize_loop folders (r # rs) = organize_loop folders2 rs"
    by (simp add: folders1_def folders2_def Let_def)
  ultimately show ?case
    using Cons [of folders2] by auto
qed

lemma ensure_loop_eq:
  "ensure_loop ex ns items = items @ map new_folder (filter (\<lambda>n. n \<notin> set ex) ns)"
  by (induction ns arbitrary: items) simp_all

lemma process_routes_result:
  assumes "process_routes ev idx routes (items, t, res) = (items', t', res')"
  shows "routes_added res' = routes_added res @ filter (\<lambda>r. map_of idx (unique_id r) = None) routes
       \<and> routes_updated res' = routes_updated res @ filter (\<lambda>r. map_of idx (unique_id r) \<noteq> None) routes
       \<and> routes_deprecated res' = routes_deprecated res \<and> routes_removed res' = routes_removed res"
  using assms
proof (induction routes arbitrary: items t res)
  case Nil
  then show ?case by simp
next
  case (Cons r routes)
  show ?case
  proof (cases "map_of idx (unique_id r)")
    case None
    obtain items1 t1 where ar: "add_request ev t items r = (items1, t1)"
      by (cases "add_request ev t items r")
    with Cons.prems None
    have "process_routes ev idx routes (items1, t1, res\<lparr>routes_added := routes_added res @ [r]\<rparr>)
        = (items', t', res')"
      by simp
    from Cons.IH [OF this] None show ?thesis
      by simp
  next
    case (Some q)
    with Cons.prems
    have "process_routes ev idx routes
        (upd_item (update_request ev t r) q items, Suc t, res\<lparr>routes_updated := routes_updated res @ [r]\<rparr>)
        = (items', t', res')"
      by simp
    from Cons.IH [OF this] Some show ?thesis
      by simp
  qed
qed

text \<open>A top-level item is a folder made for the route \<open>r\<close>.\<close>

lemma get_item_top: "get_item items [i] = Some x \<longleftrightarrow> i < length items \<and> items ! i = x"
  by auto

lemma add_request_top:
  assumes "add_request ev t items r = (items1, t1)"
  shows "length items \<le> length items1
       \<and> (\<forall>i. length items \<le> i \<and> i < length items1 \<longrightarrow>
            item_name (items1 ! i) = Some (folder_name r) \<and> item_request (items1 ! i) = None)"
proof (cases "find_folder (folder_name r) items")
  case None
  with assms have "items1 = (items @ [new_folder (folder_name r)])
      [length items := append_child (new_request_item ev t r) (new_folder (folder_name r))]"
    by (auto simp: add_request_def)
  then show ?thesis
    by (auto simp: new_folder_def append_child_def nth_append less_Suc_eq)
next
  case (Some i)
  with assms have "length items1 = length items"
    by (auto simp: add_request_def)
  then show ?thesis by auto
qed

lemma process_routes_top:
  assumes "process_routes ev idx routes (items, t, res) = (items', t', res')"
  shows "length items \<le> length items'
       \<and> (\<forall>i. length items \<le> i \<and> i < length items' \<longrightarrow>
            (\<exists>r \<in> set routes. map_of idx (unique_id r) = None
               \<and> item_name (items' ! i) = Some (folder_name r) \<and> item_request (items' ! i) = None))"
  using assms
proof (induction routes arbitrary: items t res)
  case Nil
  then show ?case by simp
next
  case (Cons r routes)
  show ?case
  proof (cases "map_of idx (unique_id r)")
    case (Some q)
    with Cons.prems
    have "process_routes ev idx routes
        (upd_item (update_request ev t r) q items, Suc t, res\<lparr>routes_updated := routes_updated res @ [r]\<rparr>)
        = (items', t', res')"
      by simp
    from Cons.IH [OF this] show ?thesis
      by auto
  next
    case None
    obtain items1 t1 where ar: "add_request ev t items r = (items1, t1)"
      by (cases "add_request ev t items r")
    with Cons.prems None
    have rest: "process_routes ev idx routes (items1, t1, res\<lparr>routes_added := routes_added res @ [r]\<rparr>)
        = (items', t', res')"
      by simp
    note ih = Cons.IH [OF rest]
    note top = add_request_top [OF ar]
    have "\<exists>r' \<in> set (r # routes). map_of idx (unique_id r') = None
               \<and> item_name (items' ! i) = Some (folder_name r') \<and> item_request (items' ! i) = None"
      if i: "length items \<le> i \<and> i < length items'" for i
    proof (cases "i < length items1")
      case False
      with ih i show ?thesis by auto
    next
      case True
      with top i have n: "item_name (items1 ! i) = Some (folder_name r)"
        "item_request (items1 ! i) = None"
        by auto
      from True have "get_item items1 [i] = Some (items1 ! i)"
        by simp
      from process_routes_frame [OF rest this]
      obtain x' where "get_item items' [i] = Some x'" "engine_touched (items1 ! i) x'"
        by blast
      with n have "item_name (items' ! i) = Some (folder_name r) \<and> item_request (items' ! i) = None"
        by (auto simp: engine_touched_def split: if_splits)
      with None show ?thesis by auto
    qed
    with ih top show ?thesis
      by auto
  qed
qed

lemma mark_deprecated_length:
  "mark_deprecated ev ids idx (items, t, d) = (items', t', d') \<Longrightarrow> length items' = length items"
proof (induction idx arbitrary: items t d)
  case Nil
  then show ?case by simp
next
  case (Cons a idx)
  obtain uid q where a: "a = (uid, q)"
    by (cases a)
  show ?case
  proof (cases "uid \<notin> set ids \<and> (\<exists>it. get_item items q = Some it \<and> \<not> marked it)")
    case False
    with Cons.prems a
    have "mark_deprecated ev ids idx (items, t, d) = (items', t', d')"
      by (auto simp: marked_def split: option.splits if_splits)
    from Cons.IH [OF this] show ?thesis .
  next
    case True
    with Cons.prems a
    have "mark_deprecated ev ids idx (upd_item (mark_item ev t) q items, Suc t, d @ [uid])
        = (items', t', d')"
      by (auto simp: marked_def)
    from Cons.IH [OF this] show ?thesis by simp
  qed
qed

lemma merge_steps_parts:
  assumes "merge_steps ev items routes = Inr (items3, t3, res3)"
  obtains idx items1 items2 t2 res2 d where
    "index_requests items = Inr idx"
    "ensure_folders items (map fst (organize_by_folder (new_routes idx routes))) = Inr items1"
    "process_routes ev idx routes (items1, 1, new_sync_result (utcnow ev 0)) = (items2, t2, res2)"
    "mark_deprecated ev (map unique_id routes) idx (items2, t2, []) = (items3, t3, d)"
    "res3 = res2\<lparr>routes_deprecated := routes_deprecated res2 @ d\<rparr>"
  using assms
  by (auto simp: merge_steps_def Let_def split: sum.splits prod.splits)

lemma merge_steps_new_groups:
  assumes "merge_steps ev items routes = Inr (items3, t3, res3)"
  shows "length items \<le> length items3
       \<and> (\<forall>i. length items \<le> i \<and> i < length items3 \<longrightarrow>
            (\<exists>r \<in> set (routes_added res3).
               item_name (items3 ! i) = Some (folder_name r) \<and> item_request (items3 ! i) = None))"
proof -
  from assms obtain idx items1 items2 t2 res2 d where
    idx: "index_requests items = Inr idx"
    and ens: "ensure_folders items (map fst (organize_by_folder (new_routes idx routes))) = Inr items1"
    and loop: "process_routes ev idx routes (items1, 1, new_sync_result (utcnow ev 0)) = (items2, t2, res2)"
    and mark: "mark_deprecated ev (map unique_id routes) idx (items2, t2, []) = (items3, t3, d)"
    and res3: "res3 = res2\<lparr>routes_deprecated := routes_deprecated res2 @ d\<rparr>"
    by (rule merge_steps_parts)
  from process_routes_result [OF loop] res3
  have added: "routes_added res3 = new_routes idx routes"
    by (simp add: new_sync_result_def new_routes_def)
  from ens obtain ex where items1: "items1 = items @ map new_folder
      (filter (\<lambda>n. n \<notin> set ex) (map fst (organize_by_folder (new_routes idx routes))))"
    by (auto simp: ensure_folders_def ensure_loop_eq split: sum.splits)
  have names: "set (map fst (organize_by_folder (new_routes idx routes)))
      = folder_name ` set (new_routes idx routes)"
    using organize_loop_keys [of "[]" "new_routes idx routes"]
    by (simp add: organize_by_folder_def)
  have l1: "length items \<le> length items1"
    using items1 by simp
  have f1: "\<exists>r \<in> set (new_routes idx routes). items1 ! i = new_folder (folder_name r)"
    if "length items \<le> i" "i < length items1" for i
  proof -
    define news where "news = map new_folder
      (filter (\<lambda>n. n \<notin> set ex) (map fst (organize_by_folder (new_routes idx routes))))"
    from that items1 have "items1 ! i = news ! (i - length items)" "i - length items < length news"
      by (auto simp: nth_append news_def)
    then have "items1 ! i \<in> set news"
      by (metis nth_mem)
    then have "items1 ! i \<in> set (map new_folder
      (filter (\<lambda>n. n \<notin> set ex) (map fst (organize_by_folder (new_routes idx routes)))))"
      by (simp add: news_def)
    then obtain n where "n \<in> set (map fst (organize_by_folder (new_routes idx routes)))"
      "items1 ! i = new_folder n"
      by auto
    with names show ?thesis by auto
  qed
  note top = process_routes_top [OF loop]
  have l3: "length items3 = length items2"
    using mark by (rule mark_deprecated_length)
  have "\<exists>r \<in> set (routes_added res3).
               item_name (items3 ! i) = Some (folder_name r) \<and> item_request (items3 ! i) = None"
    if i: "length items \<le> i \<and> i < length items3" for i
  proof -
    have "\<exists>r \<in> set (new_routes idx routes).
        item_name (items2 ! i) = Some (folder_name r) \<and> item_request (items2 ! i) = None"
    proof (cases "i < length items1")
      case False
      with i l3 have "length items1 \<le> i \<and> i < length items2"
        by simp
      with top obtain r where "r \<in> set routes" "map_of idx (unique_id r) = None"
        "item_name (items2 ! i) = Some (folder_name r)" "item_request (items2 ! i) = None"
        by blast
      then show ?thesis
        by (auto simp: new_routes_def)
    next
      case True
      with f1 i obtain r where r: "r \<in> set (new_routes idx routes)"
        "items1 ! i = new_folder (folder_name r)"
        by auto
      from True have "get_item items1 [i] = Some (items1 ! i)"
        by simp
      from process_routes_frame [OF loop this]
      obtain x' where "get_item items2 [i] = Some x'" "engine_touched (items1 ! i) x'"
        by blast
      with r show ?thesis
        by (auto simp: engine_touched_def new_folder_def split: if_splits)
    qed
    then obtain r where r: "r \<in> set (new_routes idx routes)"
      "item_name (items2 ! i) = Some (folder_name r)" "item_request (items2 ! i) = None"
      by blast
    from i l3 have "get_item items2 [i] = Some (items2 ! i)"
      by simp
    from mark_deprecated_frame [OF mark this]
    obtain x' where "get_item items3 [i] = Some x'" "engine_touched (items2 ! i) x'"
      by blast
    with r added show ?thesis
      by (auto simp: engine_touched_def split: if_splits)
  qed
  with l1 top l3 show ?thesis
    by auto
qed


text \<open>The places of the document: the engine makes new places only at the end of the
  top-level list and at the end of the children of a top-level item.\<close>

lemma upd_item_places:
  assumes "\<And>y. item_children (f y) = item_children y"
  shows "get_item (upd_item f q items) p = None \<longleftrightarrow> get_item items p = None"
proof (induction items p arbitrary: q rule: get_item.induct)
  case (1 its)
  show ?case by simp
next
  case (2 its i)
  show ?case
    by (cases q rule: ref_cases) (auto split: option.splits)
next
  case (3 its i j p)
  show ?case
  proof (cases q rule: ref_cases)
    case Nil
    then show ?thesis by simp
  next
    case (One i')
    with assms show ?thesis
      by (auto split: option.splits simp: nth_list_update)
  next
    case (More i' j' q')
    show ?thesis
    proof (cases "i' = i \<and> i < length its \<and> item_children (its ! i) \<noteq> None")
      case False
      with More show ?thesis
        by (cases "i' = i") (auto split: option.splits simp: nth_list_update)
    next
      case True
      then obtain cs where cs: "item_children (its ! i) = Some cs"
        by auto
      from True cs "3.IH" [of cs "j' # q'"]
      have "get_item (upd_item f (j' # q') cs) (j # p) = None \<longleftrightarrow> get_item cs (j # p) = None"
        by simp
      with True cs More show ?thesis
        by simp
    qed
  qed
qed

lemma get_item_snoc:
  "item_children new = None \<Longrightarrow> get_item (cs @ [new]) q = Some y
     \<Longrightarrow> get_item cs q = Some y \<or> y = new"
  by (cases q rule: ref_cases) (auto simp: nth_append split: if_splits option.splits)

lemma add_request_places:
  assumes "add_request ev t items r = (items1, t1)"
    and "get_item items1 p = Some y"
  shows "get_item items p \<noteq> None \<or> (\<exists>i. p = [i] \<and> length items \<le> i) \<or> item_children y = None"
proof (cases "find_folder (folder_name r) items")
  case None
  with assms(1) have items1: "items1 = items @
      [Item (Some (folder_name r)) None (Some [new_request_item ev t r]) None None]"
    by (auto simp: add_request_def new_folder_def append_child_def)
  show ?thesis
  proof (cases p rule: ref_cases)
    case Nil
    with assms(2) show ?thesis by simp
  next
    case (One i)
    then show ?thesis
      by (cases "i < length items") auto
  next
    case (More i j p')
    show ?thesis
    proof (cases "i < length items")
      case True
      with assms(2) More items1 show ?thesis
        by (auto simp: nth_append)
    next
      case False
      with assms(2) More items1
      have "get_item ([] @ [new_request_item ev t r]) (j # p') = Some y"
        by (auto simp: nth_append split: if_splits)
      from get_item_snoc [OF _ this] show ?thesis
        by auto
    qed
  qed
next
  case (Some i)
  from find_folder_Some [OF Some] obtain cs where i: "i < length items"
    and cs: "item_children (items ! i) = Some cs"
    by auto
  from assms(1) Some cs
  have items1: "items1 = items[i := set_children (items ! i) (cs @ [new_request_item ev t r])]"
    by (auto simp: add_request_def append_child_def)
  show ?thesis
  proof (cases p rule: ref_cases)
    case Nil
    with assms(2) show ?thesis by simp
  next
    case (One k)
    with assms(2) items1 show ?thesis
      by (auto split: if_splits)
  next
    case (More k j p')
    show ?thesis
    proof (cases "k = i")
      case False
      with assms(2) More items1 show ?thesis
        by (auto split: if_splits option.splits)
    next
      case True
      with assms(2) More items1 i
      have "get_item (cs @ [new_request_item ev t r]) (j # p') = Some y"
        by simp
      from get_item_snoc [OF _ this] True More i cs show ?thesis
        by auto
    qed
  qed
qed

lemma process_routes_places:
  assumes "process_routes ev idx routes (items, t, res) = (items', t', res')"
    and "get_item items' p = Some y"
  shows "get_item items p \<noteq> None \<or> (\<exists>i. p = [i] \<and> length items \<le> i) \<or> item_children y = None"
  using assms
proof (induction routes arbitrary: items t res)
  case Nil
  then show ?case by simp
next
  case (Cons r routes)
  show ?case
  proof (cases "map_of idx (unique_id r)")
    case (Some q)
    with Cons.prems
    have "process_routes ev idx routes
        (upd_item (update_request ev t r) q items, Suc t, res\<lparr>routes_updated := routes_updated res @ [r]\<rparr>)
        = (items', t', res')"
      by simp
    from Cons.IH [OF this Cons.prems(2)]
      upd_item_places [of "update_request ev t r" q items p]
    show ?thesis
      by simp
  next
    case None
    obtain items1 t1 where ar: "add_request ev t items r = (items1, t1)"
      by (cases "add_request ev t items r")
    with Cons.prems None
    have rest: "process_routes ev idx routes (items1, t1, res\<lparr>routes_added := routes_added res @ [r]\<rparr>)
        = (items', t', res')"
      by simp
    from add_request_top [OF ar] have len: "length items \<le> length items1"
      by simp
    from Cons.IH [OF rest Cons.prems(2)]
    consider z where "get_item items1 p = Some z"
      | i where "p = [i]" "length items1 \<le> i"
      | "item_children y = None"
      by auto
    then show ?thesis
    proof cases
      case 1
      from process_routes_frame [OF rest 1] Cons.prems(2)
      have yz: "item_children y = None \<longleftrightarrow> item_children z = None"
        by (auto simp: engine_touched_def)
      from add_request_places [OF ar 1] yz show ?thesis
        by auto
    next
      case 2
      with len show ?thesis by auto
    next
      case 3
      then show ?thesis by simp
    qed
  qed
qed

lemma mark_deprecated_places:
  "mark_deprecated ev ids idx (items, t, d) = (items', t', d')
     \<Longrightarrow> get_item items' p = None \<longleftrightarrow> get_item items p = None"
proof (induction idx arbitrary: items t d)
  case Nil
  then show ?case by simp
next
  case (Cons a idx)
  obtain uid q where a: "a = (uid, q)"
    by (cases a)
  show ?case
  proof (cases "uid \<notin> set ids \<and> (\<exists>it. get_item items q = Some it \<and> \<not> marked it)")
    case False
    with Cons.prems a
    have "mark_deprecated ev ids idx (items, t, d) = (items', t', d')"
      by (auto simp: marked_def split: option.splits if_splits)
    from Cons.IH [OF this] show ?thesis .
  next
    case True
    with Cons.prems a
    have "mark_deprecated ev ids idx (upd_item (mark_item ev t) q items, Suc t, d @ [uid])
        = (items', t', d')"
      by (auto simp: marked_def)
    from Cons.IH [OF this] upd_item_places [of "mark_item ev t" q items p]
    show ?thesis by simp
  qed
qed

lemma get_item_new_folders:
  assumes "get_item (items @ map new_folder ns) p = Some y"
  shows "get_item items p \<noteq> None \<or> (\<exists>i. p = [i] \<and> length items \<le> i)"
proof (cases p rule: ref_cases)
  case Nil
  with assms show ?thesis by simp
next
  case (One i)
  then show ?thesis
    by (cases "i < length items") auto
next
  case (More i j p')
  with assms show ?thesis
    by (cases "i < length items") (auto simp: nth_append new_folder_def split: if_splits)
qed

lemma merge_steps_places:
  assumes "merge_steps ev items routes = Inr (items3, t3, res3)"
    and "get_item items3 p = Some y"
  shows "get_item items p \<noteq> None \<or> (\<exists>i. p = [i] \<and> length items \<le> i) \<or> item_children y = None"
proof -
  from assms(1) obtain idx items1 items2 t2 res2 d where
    idx: "index_requests items = Inr idx"
    and ens: "ensure_folders items (map fst (organize_by_folder (new_routes idx routes))) = Inr items1"
    and loop: "process_routes ev idx routes (items1, 1, new_sync_result (utcnow ev 0)) = (items2, t2, res2)"
    and mark: "mark_deprecated ev (map unique_id routes) idx (items2, t2, []) = (items3, t3, d)"
    and res3: "res3 = res2\<lparr>routes_deprecated := routes_deprecated res2 @ d\<rparr>"
    by (rule merge_steps_parts)
  from ens obtain ns where items1: "items1 = items @ map new_folder ns"
    by (auto simp: ensure_folders_def ensure_loop_eq split: sum.splits)
  from mark_deprecated_places [OF mark, of p] assms(2)
  obtain y2 where y2: "get_item items2 p = Some y2"
    by auto
  from mark_deprecated_frame [OF mark y2] assms(2)
  have c: "item_children y = None \<longleftrightarrow> item_children y2 = None"
    by (auto simp: engine_touched_def)
  from process_routes_places [OF loop y2]
  consider z where "get_item items1 p = Some z"
    | i where "p = [i]" "length items1 \<le> i"
    | "item_children y2 = None"
    by auto
  then show ?thesis
  proof cases
    case 1
    with items1 get_item_new_folders [of items ns p z] show ?thesis
      by blast
  next
    case 2
    with items1 show ?thesis by simp
  next
    case 3
    with c show ?thesis by simp
  qed
qed

subsection \<open>Expiry boundary\<close>

text \<open>
  Claim C5. Let an entry stand at a place below groups only, carry a deprecation marker
  whose time stamp reads as the instant \<open>T\<close>, and have an identity that no route of the
  list has. When the clock of a successful \<open>merge\<close> shows \<open>T\<close> plus the retention days
  minus one day, the entry is in the resulting collection, the same node as before.
  When it shows \<open>T\<close> plus the retention days plus one day, no item of the resulting
  collection has the entry's request, and its identity is in \<open>routes_removed\<close>.
\<close>

theorem expiry_boundary:
  assumes "merge m ev c routes = (c', Inr res)"
    and "get_item (collection_items c) p = Some x" and "item_request x = Some rq"
    and "deprecated_at ev x T"
    and "request_unique_id rq = Inr u" and "u \<notin> unique_id ` set routes"
    and "groups_above (collection_items c) p"
  shows "((\<forall>k. utcnow ev k = T + deprecation_days m * day_us - day_us) \<longrightarrow>
            (\<exists>p' x'. get_item (collection_items c') p' = Some x' \<and> same_node x x'))
       \<and> ((\<forall>k. utcnow ev k = T + deprecation_days m * day_us + day_us) \<longrightarrow>
            u \<in> set (routes_removed res)
            \<and> (\<forall>p' x'. get_item (collection_items c') p' = Some x' \<longrightarrow> item_request x' \<noteq> Some rq))"
proof (intro conjI impI)
  have mk: "marked x"
    using assms(4) by (simp add: deprecated_at_def marked_def)
  {
    assume clock: "\<forall>k. utcnow ev k = T + deprecation_days m * day_us - day_us"
    have "\<forall>t. deprecated_and_old ev (cutoff_date_at m ev t) x = Inr None"
      using deprecated_and_old_at [OF assms(3,4,5)] clock
      by (simp add: cutoff_date_at_def day_us_def)
    from merge_untouched_kept [OF assms(1,2,3) mk assms(5,6,7) this]
    show "\<exists>p' x'. get_item (collection_items c') p' = Some x' \<and> same_node x x'" .
  }
  {
    assume clock: "\<forall>k. utcnow ev k = T + deprecation_days m * day_us + day_us"
    have "\<forall>t. deprecated_and_old ev (cutoff_date_at m ev t) x = Inr (Some u)"
      using deprecated_and_old_at [OF assms(3,4,5)] clock
      by (simp add: cutoff_date_at_def day_us_def)
    from merge_untouched_removed [OF assms(1,2,3) mk assms(5,6,7) this]
    show "u \<in> set (routes_removed res)"
      and "\<forall>p' x'. get_item (collection_items c') p' = Some x' \<longrightarrow> item_request x' \<noteq> Some rq"
      by simp_all
  }
qed

theorem expiry_boundary_witness:
  "merge \<lparr>deprecation_days = 30\<rparr> (env_at (29 * day_us)) users_collection [] =
     (users_collection, Inr (new_sync_result (29 * day_us)))
   \<and> get_item (collection_items users_collection) [0, 0] = Some deprecated_entry
   \<and> deprecated_at (env_at (29 * day_us)) deprecated_entry 0
   \<and> groups_above (collection_items users_collection) [0, 0]
   \<and> (\<exists>p' x'. get_item (collection_items users_collection) p' = Some x'
           \<and> same_node deprecated_entry x')
   \<and> merge \<lparr>deprecation_days = 30\<rparr> (env_at (31 * day_us)) users_collection [] =
     (users_collection\<lparr>coll_item := Some (ItemList [Item (Some ''Users'') None (Some []) None None])\<rparr>,
      Inr ((new_sync_result (31 * day_us))\<lparr>routes_removed := [''DELETE:/api/users/:id'']\<rparr>))
   \<and> ''DELETE:/api/users/:id''
       \<in> set (routes_removed ((new_sync_result (31 * day_us))\<lparr>routes_removed := [''DELETE:/api/users/:id'']\<rparr>))"
proof -
  let ?rq = "Request (Some ''DELETE'') (Some (build_url ''/api/users/:id''))
                   (Some (''**DEPRECATED** (as of 2024-01-01T00:00:00)'' @ [CHR 0x0A, CHR 0x0A]
                          @ ''Removes a user''))
                   None"
  have ci: "collection_items users_collection =
      [Item (Some ''Users'') None (Some [deprecated_entry]) None None]"
    by (simp add: collection_items_def users_collection_def)
  have x: "get_item (collection_items users_collection) [0, 0] = Some deprecated_entry"
    by (simp add: ci)
  have rq: "item_request deprecated_entry = Some ?rq"
    by (simp add: deprecated_entry_def)
  have u: "request_unique_id ?rq = Inr ''DELETE:/api/users/:id''"
    by (simp add: request_unique_id_def url_or_empty_def build_url_def)
  have nr: "''DELETE:/api/users/:id'' \<notin> unique_id ` set []"
    by simp
  have g: "groups_above (collection_items users_collection) [0, 0]"
    by (simp add: ci groups_above_depth_two)
  have c29: "\<forall>k. utcnow (env_at (29 * day_us)) k
      = 0 + deprecation_days \<lparr>deprecation_days = 30\<rparr> * day_us - day_us"
    by simp
  have c31: "\<forall>k. utcnow (env_at (31 * day_us)) k
      = 0 + deprecation_days \<lparr>deprecation_days = 30\<rparr> * day_us + day_us"
    by simp
  from expiry_boundary [OF users_merge_29 x rq deprecated_entry_at u nr g] c29
  have keep: "\<exists>p' x'. get_item (collection_items users_collection) p' = Some x'
           \<and> same_node deprecated_entry x'"
    by blast
  from expiry_boundary [OF users_merge_31 x rq deprecated_entry_at u nr g] c31
  have gone: "''DELETE:/api/users/:id''
       \<in> set (routes_removed ((new_sync_result (31 * day_us))\<lparr>routes_removed := [''DELETE:/api/users/:id'']\<rparr>))"
    by blast
  from users_merge_29 x deprecated_entry_at g keep users_merge_31 gone
  show ?thesis
    by blast
qed

subsection \<open>Deprecation monotonicity\<close>

text \<open>
  Claim C4. Let an entry carry the deprecation marker and have an identity that no route
  of the list has. After the update, insertion and deprecation passes of a successful
  \<open>merge\<close> the entry stands at its place with the same request: the same description,
  the same marker, the same time stamp. When moreover the entry stands below groups only
  and the expiry pass does not find it old at any reading of the clock, it is in the
  resulting collection with that request.
\<close>

theorem deprecation_monotone:
  assumes "merge m ev c routes = (c', Inr res)"
    and "get_item (collection_items c) p = Some x" and "item_request x = Some rq"
    and "marked x"
    and "request_unique_id rq = Inr u" and "u \<notin> unique_id ` set routes"
  shows "(\<exists>items3 t3 res3 x3.
            merge_steps ev (collection_items c) routes = Inr (items3, t3, res3)
            \<and> get_item items3 p = Some x3 \<and> item_request x3 = Some rq)
       \<and> (groups_above (collection_items c) p
            \<and> (\<forall>t. deprecated_and_old ev (cutoff_date_at m ev t) x = Inr None) \<longrightarrow>
          (\<exists>p' x'. get_item (collection_items c') p' = Some x' \<and> item_request x' = Some rq))"
proof (intro conjI impI)
  from assms(1) obtain items3 t3 res3 where
    st: "merge_steps ev (collection_items c) routes = Inr (items3, t3, res3)"
    by (rule merge_Inr)
  from merge_steps_frame [OF st assms(2)] assms(3,4,5,6)
  obtain x3 where "get_item items3 p = Some x3" "same_node x x3"
    by blast
  with st assms(3) show "\<exists>items3 t3 res3 x3.
            merge_steps ev (collection_items c) routes = Inr (items3, t3, res3)
            \<and> get_item items3 p = Some x3 \<and> item_request x3 = Some rq"
    by (auto simp: same_node_def)
next
  assume h: "groups_above (collection_items c) p
            \<and> (\<forall>t. deprecated_and_old ev (cutoff_date_at m ev t) x = Inr None)"
  from merge_untouched_kept [OF assms] h
  obtain p' x' where "get_item (collection_items c') p' = Some x'" "same_node x x'"
    by blast
  with assms(3) show "\<exists>p' x'. get_item (collection_items c') p' = Some x' \<and> item_request x' = Some rq"
    by (auto simp: same_node_def)
qed

theorem deprecation_monotone_witness:
  "merge \<lparr>deprecation_days = 30\<rparr> (env_at (29 * day_us)) users_collection [] =
     (users_collection, Inr (new_sync_result (29 * day_us)))
   \<and> get_item (collection_items users_collection) [0, 0] = Some deprecated_entry
   \<and> marked deprecated_entry
   \<and> groups_above (collection_items users_collection) [0, 0]
   \<and> (\<exists>items3 t3 res3 x3.
         merge_steps (env_at (29 * day_us)) (collection_items users_collection) [] = Inr (items3, t3, res3)
         \<and> get_item items3 [0, 0] = Some x3 \<and> item_request x3 = item_request deprecated_entry)
   \<and> (\<exists>p' x'. get_item (collection_items users_collection) p' = Some x'
           \<and> item_request x' = item_request deprecated_entry)"
proof -
  let ?rq = "Request (Some ''DELETE'') (Some (build_url ''/api/users/:id''))
                   (Some (''**DEPRECATED** (as of 2024-01-01T00:00:00)'' @ [CHR 0x0A, CHR 0x0A]
                          @ ''Removes a user''))
                   None"
  have ci: "collection_items users_collection =
      [Item (Some ''Users'') None (Some [deprecated_entry]) None None]"
    by (simp add: collection_items_def users_collection_def)
  have x: "get_item (collection_items users_collection) [0, 0] = Some deprecated_entry"
    by (simp add: ci)
  have rq: "item_request deprecated_entry = Some ?rq"
    by (simp add: deprecated_entry_def)
  have u: "request_unique_id ?rq = Inr ''DELETE:/api/users/:id''"
    by (simp add: request_unique_id_def url_or_empty_def build_url_def)
  have nr: "''DELETE:/api/users/:id'' \<notin> unique_id ` set []"
    by simp
  have g: "groups_above (collection_items users_collection) [0, 0]"
    by (simp add: ci groups_above_depth_two)
  have k: "\<forall>t. deprecated_and_old (env_at (29 * day_us))
      (cutoff_date_at \<lparr>deprecation_days = 30\<rparr> (env_at (29 * day_us)) t) deprecated_entry = Inr None"
    by (simp add: deprecated_entry_decision cutoff_date_at_def day_us_def)
  from deprecation_monotone [OF users_merge_29 x rq deprecated_entry_marked u nr] g k rq
  have "(\<exists>items3 t3 res3 x3.
         merge_steps (env_at (29 * day_us)) (collection_items users_collection) [] = Inr (items3, t3, res3)
         \<and> get_item items3 [0, 0] = Some x3 \<and> item_request x3 = item_request deprecated_entry)
   \<and> (\<exists>p' x'. get_item (collection_items users_collection) p' = Some x'
           \<and> item_request x' = item_request deprecated_entry)"
    by simp
  with users_merge_29 x deprecated_entry_marked g show ?thesis
    by blast
qed

subsection \<open>The indexer\<close>

text \<open>
  Claim C8. When every entry has a method, \<open>_index_requests\<close> returns an index with one
  pair for each key. The key of an entry, at whatever depth it stands, is its method, a
  colon and the path extracted from its URL, and it is a key of the index. The index
  looks a key up as the list of all keyed entries in depth-first order does
  (\<^const>\<open>map_of\<close> returns the first pair with the key): the first entry with a key is
  kept, a later one is passed over without an error. The path of a URL object with a
  list of segments is \<open>/\<close> followed by the segments joined with \<open>/\<close>. In the model
  \<^const>\<open>index_requests\<close> is a function from the item list to the index: it returns no
  new document.
\<close>

theorem index_requests_contract:
  assumes "\<forall>(p, rq) \<in> set (entries_dfs items). rq_method rq \<noteq> None"
  shows "\<exists>idx. index_requests items = Inr idx
           \<and> map_of idx = map_of (keyed (entries_dfs items))
           \<and> distinct (map fst idx)
           \<and> (\<forall>p it rq. get_item items p = Some it \<and> item_request it = Some rq \<longrightarrow>
                 (p, rq) \<in> set (entries_dfs items)
                 \<and> request_unique_id rq = Inr (entry_key rq)
                 \<and> map_of idx (entry_key rq) \<noteq> None)
           \<and> (\<forall>raw host segs.
                 extract_path (UrlObj raw host (Some (PathList segs))) = ''/'' @ py_join ''/'' segs)"
proof -
  define idx where "idx = foldl insert_new [] (keyed (entries_dfs items))"
  from assms have all: "list_all (\<lambda>(p, rq). rq_method rq \<noteq> None) (entries_dfs items)"
    by (auto simp: list_all_iff)
  then have a: "index_requests items = Inr idx"
    by (simp add: index_requests_eq idx_def)
  have b: "map_of idx = map_of (keyed (entries_dfs items))"
    by (simp add: idx_def map_of_foldl_insert_new)
  have c: "distinct (map fst idx)"
    by (simp add: idx_def distinct_foldl_insert_new)
  have d: "(p, rq) \<in> set (entries_dfs items) \<and> request_unique_id rq = Inr (entry_key rq)
      \<and> map_of idx (entry_key rq) \<noteq> None"
    if "get_item items p = Some it \<and> item_request it = Some rq" for p it rq
  proof -
    from that have e: "(p, rq) \<in> set (entries_dfs items)"
      by (auto simp: entries_dfs_iff)
    with assms have "rq_method rq \<noteq> None"
      by auto
    then have k: "request_unique_id rq = Inr (entry_key rq)"
      by (auto simp: request_unique_id_def entry_key_def)
    from e have "(entry_key rq, p) \<in> set (keyed (entries_dfs items))"
      by (force simp: keyed_def)
    then have "entry_key rq \<in> fst ` set (keyed (entries_dfs items))"
      by (rule image_eqI [rotated]) simp
    then have "map_of (keyed (entries_dfs items)) (entry_key rq) \<noteq> None"
      by (simp add: map_of_eq_None_iff)
    with e k b show ?thesis
      by simp
  qed
  from a b c d show ?thesis
    by (intro exI [of _ idx]) auto
qed

lemma nested_entries:
  "entries_dfs nested_items =
     [([0, 0], Request (Some ''GET'') (Some (UrlObj None None (Some (PathList [''x''])))) None None),
      ([0, 1, 0], Request (Some ''GET'') (Some (UrlStr ''/x'')) None None),
      ([0, 1, 1], Request (Some ''POST'') (Some (UrlObj None None (Some (PathList [''y'', ''z''])))) None None)]"
  by (simp add: entries_dfs_def nested_items_def entry_first_def entry_second_def entry_third_def)

lemma nested_index:
  "index_requests nested_items = Inr [(''GET:/x'', [0, 0]), (''POST:/y/z'', [0, 1, 1])]"
  by (simp add: index_requests_def nested_items_def entry_first_def entry_second_def
      entry_third_def request_unique_id_def url_or_empty_def)

theorem index_requests_contract_witness:
  "list_all (\<lambda>(p, rq). rq_method rq \<noteq> None) (entries_dfs nested_items)
   \<and> index_requests nested_items = Inr [(''GET:/x'', [0, 0]), (''POST:/y/z'', [0, 1, 1])]
   \<and> get_item nested_items [0, 1, 0] = Some entry_second
   \<and> map_of (keyed (entries_dfs nested_items)) ''GET:/x'' = Some [0, 0]
   \<and> (\<exists>idx. index_requests nested_items = Inr idx
         \<and> map_of idx = map_of (keyed (entries_dfs nested_items))
         \<and> distinct (map fst idx)
         \<and> map_of idx ''GET:/x'' = Some [0, 0])"
proof -
  have h: "\<forall>(p, rq) \<in> set (entries_dfs nested_items). rq_method rq \<noteq> None"
    by (simp add: nested_entries)
  have la: "list_all (\<lambda>(p, rq). rq_method rq \<noteq> None) (entries_dfs nested_items)"
    by (simp add: nested_entries)
  have g: "get_item nested_items [0, 1, 0] = Some entry_second"
    by (simp add: nested_items_def)
  have k: "map_of (keyed (entries_dfs nested_items)) ''GET:/x'' = Some [0, 0]"
    by (simp add: nested_entries keyed_def entry_key_def url_or_empty_def)
  from index_requests_contract [OF h] obtain idx where
    "index_requests nested_items = Inr idx"
    "map_of idx = map_of (keyed (entries_dfs nested_items))"
    "distinct (map fst idx)"
    by blast
  with k have "\<exists>idx. index_requests nested_items = Inr idx
         \<and> map_of idx = map_of (keyed (entries_dfs nested_items))
         \<and> distinct (map fst idx)
         \<and> map_of idx ''GET:/x'' = Some [0, 0]"
    by auto
  with la nested_index g k show ?thesis
    by blast
qed

subsection \<open>Time stamps that do not parse\<close>

lemma stale_entry_marked: "marked stale_entry"
  by (simp add: marked_def stale_entry_def request_description_def deprecated_marker_def)

lemma stale_entry_unparsable: "unparsable_timestamp (env_at now) stale_entry"
  by (simp add: unparsable_timestamp_def stale_entry_def request_description_def
      match_as_of_def iso_char_def py_isdigit_def fromisoformat_env_at)

lemma deprecated_and_old_unparsable:
  assumes "unparsable_timestamp ev x"
  shows "deprecated_and_old ev c x = Inr None"
  using assms
  by (auto simp: deprecated_and_old_def unparsable_timestamp_def Let_def split: option.splits)

lemma process_items_leaf_kept:
  assumes "deprecated_and_old ev c x = Inr None" and "item_children x = None"
  shows "process_items ev c (x # ys) =
           (case process_items ev c ys of
              Inl e \<Rightarrow> Inl e
            | Inr (fy, ry, ly) \<Rightarrow> Inr (x # fy, ry, ly))"
  using assms by (simp split: sum.splits)

text \<open>
  Claim C7 says that the expiry pass logs an unparsable time stamp. It does not: the pass
  over an entry whose marker has the time stamp \<open>2024-13-45\<close> keeps the entry, removes
  nothing and makes no call of the logger.
\<close>

theorem unparsable_timestamp_not_logged:
  "marked stale_entry
   \<and> unparsable_timestamp (env_at (31 * day_us)) stale_entry
   \<and> remove_old_deprecated \<lparr>deprecation_days = 30\<rparr> (env_at (31 * day_us)) 1 [stale_entry] =
       Inr ([stale_entry], [], [])"
proof -
  have "item_children stale_entry = None"
    by (simp add: stale_entry_def)
  then show ?thesis
    using stale_entry_marked stale_entry_unparsable [of "31 * day_us"]
      deprecated_and_old_unparsable [OF stale_entry_unparsable [of "31 * day_us"]]
    by (simp add: remove_old_deprecated_def process_items_leaf_kept)
qed

text \<open>
  Claim C7, amended. Let an entry without children carry the marker with a time stamp
  that is missing or does not parse. The expiry pass over a list that holds the entry
  returns what it returns for the items before and after it, with the entry itself put
  between them, nothing added to the removed identities and nothing logged; it fails
  only where it fails without the entry. And when \<open>merge\<close> returns, an entry of this kind
  that stands below groups only and whose identity no route has is in the resulting
  collection, the same node as before.
\<close>

theorem unparsable_timestamp_kept:
  assumes "item_request x = Some rq" and "item_children x = None"
    and "marked x" and "unparsable_timestamp ev x"
  shows "process_items ev cutoff (xs @ x # ys) =
           (case process_items ev cutoff xs of
              Inl e \<Rightarrow> Inl e
            | Inr (fx, rx, lx) \<Rightarrow>
                (case process_items ev cutoff ys of
                   Inl e \<Rightarrow> Inl e
                 | Inr (fy, ry, ly) \<Rightarrow> Inr (fx @ x # fy, rx @ ry, lx @ ly)))
       \<and> (merge m ev c routes = (c', Inr res) \<and> get_item (collection_items c) p = Some x
            \<and> request_unique_id rq = Inr u \<and> u \<notin> unique_id ` set routes
            \<and> groups_above (collection_items c) p \<longrightarrow>
          (\<exists>p' x'. get_item (collection_items c') p' = Some x' \<and> same_node x x'))"
proof (intro conjI impI)
  have d: "deprecated_and_old ev c x = Inr None" for c
    using assms(4) by (rule deprecated_and_old_unparsable)
  show "process_items ev cutoff (xs @ x # ys) =
           (case process_items ev cutoff xs of
              Inl e \<Rightarrow> Inl e
            | Inr (fx, rx, lx) \<Rightarrow>
                (case process_items ev cutoff ys of
                   Inl e \<Rightarrow> Inl e
                 | Inr (fy, ry, ly) \<Rightarrow> Inr (fx @ x # fy, rx @ ry, lx @ ly)))"
    unfolding process_items_append [of ev cutoff xs "x # ys"]
      process_items_leaf_kept [OF d assms(2)]
    by (simp split: sum.splits)
  assume h: "merge m ev c routes = (c', Inr res) \<and> get_item (collection_items c) p = Some x
            \<and> request_unique_id rq = Inr u \<and> u \<notin> unique_id ` set routes
            \<and> groups_above (collection_items c) p"
  then have "merge m ev c routes = (c', Inr res)" "get_item (collection_items c) p = Some x"
    "request_unique_id rq = Inr u" "u \<notin> unique_id ` set routes"
    "groups_above (collection_items c) p"
    by simp_all
  from merge_untouched_kept [OF this(1,2) assms(1,3) this(3,4,5)] d
  show "\<exists>p' x'. get_item (collection_items c') p' = Some x' \<and> same_node x x'"
    by simp
qed


declare process_items.simps [simp del]

lemma legacy_index:
  "index_requests [Item (Some ''Legacy'') None (Some [stale_entry, deprecated_entry]) None None] =
     Inr [(''GET:/api/report'', [0, 0]), (''DELETE:/api/users/:id'', [0, 1])]"
  by (simp add: index_requests_def stale_entry_def deprecated_entry_def request_unique_id_def
      url_or_empty_def build_url_def)

lemma legacy_steps:
  "merge_steps (env_at now)
     [Item (Some ''Legacy'') None (Some [stale_entry, deprecated_entry]) None None] [] =
   Inr ([Item (Some ''Legacy'') None (Some [stale_entry, deprecated_entry]) None None], 1,
        new_sync_result now)"
  using deprecated_entry_marked stale_entry_marked
  by (simp add: merge_steps_def legacy_index new_routes_def organize_by_folder_def
      ensure_folders_def marked_def)

lemma legacy_merge_31:
  "merge \<lparr>deprecation_days = 30\<rparr> (env_at (31 * day_us)) legacy_collection [] =
     (legacy_collection\<lparr>coll_item := Some (ItemList
         [Item (Some ''Legacy'') None (Some [stale_entry]) None None])\<rparr>,
      Inr ((new_sync_result (31 * day_us))\<lparr>routes_removed := [''DELETE:/api/users/:id'']\<rparr>))"
proof -
  have v: "validate_postman_collection legacy_collection = Inr ()"
    by (simp add: validate_postman_collection_def legacy_collection_def)
  have ci: "collection_items legacy_collection =
      [Item (Some ''Legacy'') None (Some [stale_entry, deprecated_entry]) None None]"
    by (simp add: collection_items_def legacy_collection_def)
  have sc: "item_children stale_entry = None"
    by (simp add: stale_entry_def)
  show ?thesis
    by (simp add: merge_def v ci legacy_steps remove_old_deprecated_def cutoff_date_at_def
        deprecated_entry_decision deprecated_and_old_unparsable [OF stale_entry_unparsable]
        sc day_us_def new_sync_result_def process_items.simps)
qed

theorem unparsable_timestamp_kept_witness:
  "item_children stale_entry = None
   \<and> marked stale_entry
   \<and> unparsable_timestamp (env_at (31 * day_us)) stale_entry
   \<and> process_items (env_at (31 * day_us)) day_us ([] @ stale_entry # [deprecated_entry]) =
       Inr ([stale_entry], [''DELETE:/api/users/:id''],
            [RemovedOldDeprecated ''DELETE:/api/users/:id''])
   \<and> merge \<lparr>deprecation_days = 30\<rparr> (env_at (31 * day_us)) legacy_collection [] =
     (legacy_collection\<lparr>coll_item := Some (ItemList
         [Item (Some ''Legacy'') None (Some [stale_entry]) None None])\<rparr>,
      Inr ((new_sync_result (31 * day_us))\<lparr>routes_removed := [''DELETE:/api/users/:id'']\<rparr>))
   \<and> (\<exists>p' x'. get_item [Item (Some ''Legacy'') None (Some [stale_entry]) None None] p' = Some x'
         \<and> same_node stale_entry x')"
proof -
  let ?rq = "Request (Some ''GET'') (Some (build_url ''/api/report''))
                   (Some (''**DEPRECATED** (as of 2024-13-45)'' @ [CHR 0x0A, CHR 0x0A]
                          @ ''Old endpoint''))
                   None"
  let ?c' = "legacy_collection\<lparr>coll_item := Some (ItemList
         [Item (Some ''Legacy'') None (Some [stale_entry]) None None])\<rparr>"
  have rq: "item_request stale_entry = Some ?rq"
    by (simp add: stale_entry_def)
  have sc: "item_children stale_entry = None"
    by (simp add: stale_entry_def)
  have ci: "collection_items legacy_collection =
      [Item (Some ''Legacy'') None (Some [stale_entry, deprecated_entry]) None None]"
    by (simp add: collection_items_def legacy_collection_def)
  have x: "get_item (collection_items legacy_collection) [0, 0] = Some stale_entry"
    by (simp add: ci)
  have u: "request_unique_id ?rq = Inr ''GET:/api/report''"
    by (simp add: request_unique_id_def url_or_empty_def build_url_def)
  have g: "groups_above (collection_items legacy_collection) [0, 0]"
    by (simp add: ci groups_above_depth_two)
  have ys: "process_items (env_at (31 * day_us)) day_us [deprecated_entry] =
      Inr ([], [''DELETE:/api/users/:id''], [RemovedOldDeprecated ''DELETE:/api/users/:id''])"
    by (simp add: deprecated_entry_decision day_us_def process_items.simps)
  note t = unparsable_timestamp_kept [OF rq sc stale_entry_marked stale_entry_unparsable,
      of "31 * day_us" day_us "[]" "[deprecated_entry]" "\<lparr>deprecation_days = 30\<rparr>"
         legacy_collection "[]" ?c'
         "(new_sync_result (31 * day_us))\<lparr>routes_removed := [''DELETE:/api/users/:id'']\<rparr>"
         "[0, 0]" "''GET:/api/report''"]
  from t have a: "process_items (env_at (31 * day_us)) day_us ([] @ stale_entry # [deprecated_entry]) =
       Inr ([stale_entry], [''DELETE:/api/users/:id''],
            [RemovedOldDeprecated ''DELETE:/api/users/:id''])"
    by (simp add: ys process_items.simps(1))
  from t legacy_merge_31 x u g
  have b: "\<exists>p' x'. get_item (collection_items ?c') p' = Some x' \<and> same_node stale_entry x'"
    by simp
  from sc stale_entry_marked stale_entry_unparsable [of "31 * day_us"] a legacy_merge_31 b
  show ?thesis
    by simp
qed

subsection \<open>Frame property of the update loop\<close>

lemma health_unique_id: "unique_id health_route = ''GET:/api/health''"
  by (simp add: unique_id_def health_route_def)

lemma scenario_unique_id: "unique_id scenario_route = ''POST:/api/auth/token''"
  by (simp add: unique_id_def scenario_route_def)

lemma monitoring_index: "index_requests monitoring_items = Inr [(''GET:/api/health'', [0, 0])]"
  by (simp add: index_requests_def monitoring_items_def health_entry_def request_unique_id_def
      url_or_empty_def)

lemma health_updated:
  "update_request frozen_env t health_route health_entry =
     Item (Some ''Health'')
          (Some (Request (Some ''GET'') (Some (build_url ''/api/health''))
                   (Some (''Checks service'' @ [CHR 0x0A, CHR 0x0A]
                          @ ''_Last synced: 2024-01-01T00:00:00_''))
                   (Some (JArr []))))
          None
          (Some [script_event ''test'' [''// written by hand''], auth_event])
          (Some (JArr [JStr ''example'']))"
  by (simp add: update_request_def health_entry_def health_route_def route_description_def
      route_protected_def sync_note_frozen_env ensure_auth_prerequest_def script_event_def
      auth_event_def)

lemma monitoring_steps:
  "merge_steps frozen_env monitoring_items [health_route, scenario_route] =
     Inr ([Item (Some ''Monitoring'') None
             (Some [update_request frozen_env 1 health_route health_entry]) None None,
           Item (Some ''Auth'') None (Some [new_request_item frozen_env 2 scenario_route]) None None],
          3, (new_sync_result 0)\<lparr>routes_added := [scenario_route], routes_updated := [health_route]\<rparr>)"
proof -
  have d: "route_description scenario_route = None"
    by (simp add: route_description_def scenario_route_def)
  show ?thesis
    unfolding merge_steps_def monitoring_index
    by (simp add: health_unique_id scenario_unique_id new_routes_def organize_by_folder_def
        scenario_folder_name ensure_folders_def monitoring_items_def add_request_def
        new_folder_def append_child_def d frozen_env_def new_sync_result_def
        numeral_2_eq_2 numeral_3_eq_3)
qed


text \<open>
  Claim C9. Through indexing, the creation of folders, the loop over the routes and the
  deprecation marks, every item of the document stays at its place, with its name, its
  responses, its request headers and its events in their order; the events are extended
  by nothing but the authorization \<open>prerequest\<close> event, and not at all when no route
  with the identity of the entry is protected. Every group of the resulting document is
  a group of the given document at the same place, with the same name, or a new top-level
  group named after the folder of a route recorded in \<open>routes_added\<close>.
\<close>

theorem update_frame:
  assumes "merge_steps ev items routes = Inr (items3, t3, res3)"
  shows "(\<forall>p x. get_item items p = Some x \<longrightarrow>
            (\<exists>x3. get_item items3 p = Some x3
               \<and> item_name x3 = item_name x
               \<and> item_response x3 = item_response x
               \<and> header_of x3 = header_of x
               \<and> (item_request x3 = None \<longleftrightarrow> item_request x = None)
               \<and> (is_group x3 \<longleftrightarrow> is_group x)
               \<and> (\<exists>extra. events_of x3 = events_of x @ extra \<and> set extra \<subseteq> {auth_event})
               \<and> (\<forall>rq u. item_request x = Some rq \<and> request_unique_id rq = Inr u
                     \<and> (\<forall>r \<in> set routes. unique_id r = u \<longrightarrow> \<not> route_protected r)
                     \<longrightarrow> item_event x3 = item_event x)))
       \<and> (\<forall>p y. get_item items3 p = Some y \<and> is_group y \<longrightarrow>
            (\<exists>x. get_item items p = Some x \<and> is_group x \<and> item_name x = item_name y)
            \<or> (\<exists>i r. p = [i] \<and> length items \<le> i \<and> r \<in> set (routes_added res3)
                  \<and> item_name y = Some (folder_name r) \<and> item_request y = None))"
proof (intro conjI allI impI)
  fix p x
  assume "get_item items p = Some x"
  from merge_steps_frame [OF assms this]
  obtain x3 where x3: "get_item items3 p = Some x3" "engine_touched x x3"
    and ev: "\<forall>rq u. item_request x = Some rq \<and> request_unique_id rq = Inr u
                     \<and> (\<forall>r \<in> set routes. unique_id r = u \<longrightarrow> \<not> route_protected r)
                     \<longrightarrow> item_event x3 = item_event x"
    by blast
  from x3(2) have "item_name x3 = item_name x" "item_response x3 = item_response x"
    "header_of x3 = header_of x" "item_request x3 = None \<longleftrightarrow> item_request x = None"
    "is_group x3 \<longleftrightarrow> is_group x"
    "\<exists>extra. events_of x3 = events_of x @ extra \<and> set extra \<subseteq> {auth_event}"
    by (simp_all add: engine_touched_def is_group_def)
  with x3(1) ev
  show "\<exists>x3. get_item items3 p = Some x3
               \<and> item_name x3 = item_name x
               \<and> item_response x3 = item_response x
               \<and> header_of x3 = header_of x
               \<and> (item_request x3 = None \<longleftrightarrow> item_request x = None)
               \<and> (is_group x3 \<longleftrightarrow> is_group x)
               \<and> (\<exists>extra. events_of x3 = events_of x @ extra \<and> set extra \<subseteq> {auth_event})
               \<and> (\<forall>rq u. item_request x = Some rq \<and> request_unique_id rq = Inr u
                     \<and> (\<forall>r \<in> set routes. unique_id r = u \<longrightarrow> \<not> route_protected r)
                     \<longrightarrow> item_event x3 = item_event x)"
    by (intro exI [of _ x3] conjI) assumption+
next
  fix p y
  assume y: "get_item items3 p = Some y \<and> is_group y"
  from merge_steps_places [OF assms, of p y] y
  consider x where "get_item items p = Some x"
    | i where "p = [i]" "length items \<le> i"
    by (auto simp: is_group_def)
  then show "(\<exists>x. get_item items p = Some x \<and> is_group x \<and> item_name x = item_name y)
            \<or> (\<exists>i r. p = [i] \<and> length items \<le> i \<and> r \<in> set (routes_added res3)
                  \<and> item_name y = Some (folder_name r) \<and> item_request y = None)"
  proof cases
    case 1
    from merge_steps_frame [OF assms 1] y have "engine_touched x y"
      by auto
    with y 1 show ?thesis
      by (auto simp: engine_touched_def is_group_def)
  next
    case 2
    with y have i: "i < length items3" "items3 ! i = y"
      by (auto split: if_splits)
    with 2 merge_steps_new_groups [OF assms] show ?thesis
      by auto
  qed
qed

theorem update_frame_witness:
  "merge_steps frozen_env monitoring_items [health_route, scenario_route] =
     Inr ([Item (Some ''Monitoring'') None
             (Some [update_request frozen_env 1 health_route health_entry]) None None,
           Item (Some ''Auth'') None (Some [new_request_item frozen_env 2 scenario_route]) None None],
          3, (new_sync_result 0)\<lparr>routes_added := [scenario_route], routes_updated := [health_route]\<rparr>)
   \<and> get_item monitoring_items [0, 0] = Some health_entry
   \<and> item_name (update_request frozen_env 1 health_route health_entry) = Some ''Health''
   \<and> item_response (update_request frozen_env 1 health_route health_entry)
       = Some (JArr [JStr ''example''])
   \<and> events_of (update_request frozen_env 1 health_route health_entry)
       = [script_event ''test'' [''// written by hand''], auth_event]
   \<and> is_group (Item (Some ''Auth'') None (Some [new_request_item frozen_env 2 scenario_route])
                 None None)
   \<and> get_item monitoring_items [1] = None
   \<and> folder_name scenario_route = ''Auth''"
proof -
  let ?g = "Item (Some ''Auth'') None (Some [new_request_item frozen_env 2 scenario_route])
                 None None"
  note t = update_frame [OF monitoring_steps]
  have x: "get_item monitoring_items [0, 0] = Some health_entry"
    by (simp add: monitoring_items_def)
  from t x obtain x3 where x3:
    "get_item [Item (Some ''Monitoring'') None
             (Some [update_request frozen_env 1 health_route health_entry]) None None, ?g] [0, 0]
       = Some x3"
    "item_name x3 = item_name health_entry" "item_response x3 = item_response health_entry"
    "\<exists>extra. events_of x3 = events_of health_entry @ extra \<and> set extra \<subseteq> {auth_event}"
    by blast
  then have a: "item_name (update_request frozen_env 1 health_route health_entry) = Some ''Health''"
    "item_response (update_request frozen_env 1 health_route health_entry)
       = Some (JArr [JStr ''example''])"
    by (auto simp: health_entry_def)
  have e: "events_of (update_request frozen_env 1 health_route health_entry)
       = [script_event ''test'' [''// written by hand''], auth_event]"
    by (simp add: health_updated events_of_def)
  have g: "is_group ?g"
    by (simp add: is_group_def)
  have n: "get_item monitoring_items [1] = None"
    by (simp add: monitoring_items_def)
  have "get_item [Item (Some ''Monitoring'') None
             (Some [update_request frozen_env 1 health_route health_entry]) None None, ?g] [1]
       = Some ?g"
    by simp
  with t g n have "\<exists>i r. [1] = [i] \<and> length monitoring_items \<le> i
      \<and> r \<in> set (routes_added ((new_sync_result 0)\<lparr>routes_added := [scenario_route],
             routes_updated := [health_route]\<rparr>))
      \<and> item_name ?g = Some (folder_name r) \<and> item_request ?g = None"
    by (metis option.distinct(1))
  then have f: "folder_name scenario_route = ''Auth''"
    by simp
  from monitoring_steps x a e g n f show ?thesis
    by simp
qed

subsection \<open>Routes given more than once\<close>

lemma set_children_same: "item_children it = Some cs \<Longrightarrow> set_children it cs = it"
  by (cases it) simp

lemma process_items_nothing_removed:
  "process_items ev c items = Inr (out, [], lg) \<Longrightarrow> out = items"
proof (induction "size_list size items" arbitrary: items out lg rule: less_induct)
  case less
  show ?case
  proof (cases items)
    case Nil
    with less.prems show ?thesis by (simp add: process_items.simps)
  next
    case (Cons it rest)
    from less.prems [unfolded Cons] show ?thesis
    proof (cases rule: process_items_Cons_Inr)
      case (removed u f r l)
      then show ?thesis by simp
    next
      case (leaf f)
      have "size_list size rest < size_list size items"
        by (simp add: Cons)
      from less.hyps [OF this leaf(3)] leaf Cons show ?thesis
        by simp
    next
      case (folder cs cs' rmc lgc f r l)
      then have e: "rmc = []" "r = []"
        by simp_all
      have "size_list size cs < size it"
        using folder(2) by (cases it) simp
      then have "size_list size cs < size_list size items"
        by (simp add: Cons)
      from less.hyps [OF this] folder(3) e have "cs' = cs"
        by simp
      moreover have "size_list size rest < size_list size items"
        by (simp add: Cons)
      from less.hyps [OF this] folder(4) e have "f = rest"
        by simp
      ultimately show ?thesis
        using folder Cons by (simp add: set_children_same)
    qed
  qed
qed

lemma same_node_leaf: "same_node x y \<Longrightarrow> item_children x = None \<Longrightarrow> y = x"
  by (cases x; cases y) (simp add: same_node_def)

text \<open>Every occurrence of a route that is not in the index makes an entry at a new
  place.\<close>

lemma add_request_new_place:
  assumes "add_request ev t items r = (items1, t1)"
  obtains pn where "get_item items pn = None"
    "get_item items1 pn = Some (new_request_item ev t r)"
proof (cases "find_folder (folder_name r) items")
  case None
  with assms have items1: "items1 = items @
      [Item (Some (folder_name r)) None (Some [new_request_item ev t r]) None None]"
    by (auto simp: add_request_def new_folder_def append_child_def)
  have "get_item items [length items, 0] = None"
    by simp
  moreover have "get_item items1 [length items, 0] = Some (new_request_item ev t r)"
    by (simp add: items1)
  ultimately show ?thesis
    by (rule that)
next
  case (Some i)
  from find_folder_Some [OF Some] obtain cs where i: "i < length items"
    and cs: "item_children (items ! i) = Some cs"
    by auto
  from assms Some cs
  have items1: "items1 = items[i := set_children (items ! i) (cs @ [new_request_item ev t r])]"
    by (auto simp: add_request_def append_child_def)
  have "get_item items [i, length cs] = None"
    using i cs by simp
  moreover have "get_item items1 [i, length cs] = Some (new_request_item ev t r)"
    using i by (simp add: items1)
  ultimately show ?thesis
    by (rule that)
qed

lemma process_routes_new_entries:
  assumes "process_routes ev idx routes (items, t, res) = (items', t', res')"
    and "\<forall>(u, q) \<in> set idx. get_item items q \<noteq> None"
  shows "\<exists>ps ts. length ps = length (new_routes idx routes) \<and> length ts = length ps
           \<and> distinct ps
           \<and> (\<forall>k < length ps. get_item items (ps ! k) = None
                 \<and> get_item items' (ps ! k) = Some (new_request_item ev (ts ! k) (new_routes idx routes ! k)))"
  using assms
proof (induction routes arbitrary: items t res)
  case Nil
  then show ?case by (simp add: new_routes_def)
next
  case (Cons r routes)
  show ?case
  proof (cases "map_of idx (unique_id r)")
    case (Some q)
    let ?items1 = "upd_item (update_request ev t r) q items"
    from Some Cons.prems(1)
    have rest: "process_routes ev idx routes
        (?items1, Suc t, res\<lparr>routes_updated := routes_updated res @ [r]\<rparr>) = (items', t', res')"
      by simp
    have pl: "get_item ?items1 p = None \<longleftrightarrow> get_item items p = None" for p
      by (rule upd_item_places) simp
    from Cons.prems(2) pl have "\<forall>(u, q) \<in> set idx. get_item ?items1 q \<noteq> None"
      by auto
    from Cons.IH [OF rest this] pl Some show ?thesis
      by (simp add: new_routes_def)
  next
    case None
    obtain items1 t1 where ar: "add_request ev t items r = (items1, t1)"
      by (cases "add_request ev t items r")
    with Cons.prems(1) None
    have rest: "process_routes ev idx routes (items1, t1, res\<lparr>routes_added := routes_added res @ [r]\<rparr>)
        = (items', t', res')"
      by simp
    have grow: "get_item items1 p = None \<Longrightarrow> get_item items p = None" for p
      using add_request_frame [OF ar, of p] by (cases "get_item items p") auto
    have inv: "\<forall>(u, q) \<in> set idx. get_item items1 q \<noteq> None"
    proof -
      have "get_item items1 q \<noteq> None" if "(u, q) \<in> set idx" for u q
      proof -
        from that Cons.prems(2) have "get_item items q \<noteq> None"
          by auto
        with grow [of q] show ?thesis
          by auto
      qed
      then show ?thesis
        by auto
    qed
    from Cons.IH [OF rest inv] obtain ps ts where ps:
      "length ps = length (new_routes idx routes)" "length ts = length ps" "distinct ps"
      "\<forall>k < length ps. get_item items1 (ps ! k) = None
         \<and> get_item items' (ps ! k) = Some (new_request_item ev (ts ! k) (new_routes idx routes ! k))"
      by blast
    from ar obtain pn where pn: "get_item items pn = None"
      "get_item items1 pn = Some (new_request_item ev t r)"
      by (rule add_request_new_place)
    from pn(1) Cons.prems(2) have "\<forall>r' \<in> set routes. map_of idx (unique_id r') \<noteq> Some pn"
      by (auto dest!: map_of_SomeD)
    with process_routes_frame [OF rest pn(2)]
    obtain x' where x': "get_item items' pn = Some x'" "same_node (new_request_item ev t r) x'"
      by blast
    then have here: "get_item items' pn = Some (new_request_item ev t r)"
      using same_node_leaf [of "new_request_item ev t r" x'] by simp
    have notin: "pn \<notin> set ps"
    proof
      assume "pn \<in> set ps"
      then obtain k where "k < length ps" "ps ! k = pn"
        by (auto simp: in_set_conv_nth)
      with ps(4) pn(2) show False
        by auto
    qed
    have nr: "new_routes idx (r # routes) = r # new_routes idx routes"
      using None by (simp add: new_routes_def)
    have "\<forall>k < length (pn # ps). get_item items ((pn # ps) ! k) = None
         \<and> get_item items' ((pn # ps) ! k)
            = Some (new_request_item ev ((t # ts) ! k) (new_routes idx (r # routes) ! k))"
    proof (intro allI impI)
      fix k
      assume k: "k < length (pn # ps)"
      show "get_item items ((pn # ps) ! k) = None
         \<and> get_item items' ((pn # ps) ! k)
            = Some (new_request_item ev ((t # ts) ! k) (new_routes idx (r # routes) ! k))"
      proof (cases k)
        case 0
        with pn(1) here nr show ?thesis by simp
      next
        case (Suc j)
        with k ps(4) have "get_item items1 (ps ! j) = None
          \<and> get_item items' (ps ! j) = Some (new_request_item ev (ts ! j) (new_routes idx routes ! j))"
          by simp
        with grow Suc nr show ?thesis
          by simp
      qed
    qed
    moreover have "length (pn # ps) = length (new_routes idx (r # routes))"
      "length (t # ts) = length (pn # ps)" "distinct (pn # ps)"
      using ps(1-3) nr notin by simp_all
    ultimately show ?thesis
      by blast
  qed
qed

lemma merge_steps_new_entries:
  assumes "merge_steps ev items routes = Inr (items3, t3, res3)"
    and "index_requests items = Inr idx"
  shows "routes_added res3 = new_routes idx routes
       \<and> routes_updated res3 = filter (\<lambda>r. map_of idx (unique_id r) \<noteq> None) routes
       \<and> routes_removed res3 = []
       \<and> (\<exists>ps ts. length ps = length (new_routes idx routes) \<and> length ts = length ps
             \<and> distinct ps
             \<and> (\<forall>k < length ps. get_item items (ps ! k) = None
                   \<and> get_item items3 (ps ! k)
                      = Some (new_request_item ev (ts ! k) (new_routes idx routes ! k))))"
proof -
  from assms(1) obtain idx' items1 items2 t2 res2 d where
    idx': "index_requests items = Inr idx'"
    and ens: "ensure_folders items (map fst (organize_by_folder (new_routes idx' routes))) = Inr items1"
    and loop: "process_routes ev idx' routes (items1, 1, new_sync_result (utcnow ev 0)) = (items2, t2, res2)"
    and mark: "mark_deprecated ev (map unique_id routes) idx' (items2, t2, []) = (items3, t3, d)"
    and res3: "res3 = res2\<lparr>routes_deprecated := routes_deprecated res2 @ d\<rparr>"
    by (rule merge_steps_parts)
  from idx' assms(2) have same: "idx' = idx"
    by simp
  note ens = ens [unfolded same] and loop = loop [unfolded same] and mark = mark [unfolded same]
  from process_routes_result [OF loop] res3
  have res: "routes_added res3 = new_routes idx routes"
    "routes_updated res3 = filter (\<lambda>r. map_of idx (unique_id r) \<noteq> None) routes"
    "routes_removed res3 = []"
    by (simp_all add: new_sync_result_def new_routes_def)
  have inv: "get_item items1 q \<noteq> None" if "(u, q) \<in> set idx" for u q
    using index_requests_place [OF assms(2) that] ensure_folders_frame [OF ens, of q] by auto
  then have "\<forall>(u, q) \<in> set idx. get_item items1 q \<noteq> None"
    by auto
  from process_routes_new_entries [OF loop this] obtain ps ts where ps:
    "length ps = length (new_routes idx routes)" "length ts = length ps" "distinct ps"
    "\<forall>k < length ps. get_item items1 (ps ! k) = None
       \<and> get_item items2 (ps ! k) = Some (new_request_item ev (ts ! k) (new_routes idx routes ! k))"
    by blast
  have "get_item items (ps ! k) = None
      \<and> get_item items3 (ps ! k) = Some (new_request_item ev (ts ! k) (new_routes idx routes ! k))"
    if k: "k < length ps" for k
  proof -
    from ps(4) k have n1: "get_item items1 (ps ! k) = None"
      and n2: "get_item items2 (ps ! k) = Some (new_request_item ev (ts ! k) (new_routes idx routes ! k))"
      by auto
    from n1 ensure_folders_frame [OF ens, of "ps ! k"] have a: "get_item items (ps ! k) = None"
      by (cases "get_item items (ps ! k)") auto
    have "\<forall>uid. (uid, ps ! k) \<in> set idx \<longrightarrow> uid \<in> set (map unique_id routes)"
      using n1 inv [of _ "ps ! k"] by blast
    with mark_deprecated_frame [OF mark n2]
    obtain x' where "get_item items3 (ps ! k) = Some x'"
      "same_node (new_request_item ev (ts ! k) (new_routes idx routes ! k)) x'"
      by blast
    with same_node_leaf [of "new_request_item ev (ts ! k) (new_routes idx routes ! k)" x'] a
    show ?thesis
      by simp
  qed
  with ps(1-3) res show ?thesis
    by blast
qed

lemma count_new_entries:
  assumes "distinct ps" and "length ps = length rs"
    and "\<forall>k < length ps. get_item items (ps ! k) = Some (new_request_item ev (ts ! k) (rs ! k))"
  shows "length (filter (\<lambda>r. unique_id r = u
              \<and> extract_path (build_url (full_path r)) = full_path r) rs)
         \<le> length (entries_with_id u items)"
proof -
  let ?P = "\<lambda>r. unique_id r = u \<and> extract_path (build_url (full_path r)) = full_path r"
  let ?K = "{k. k < length rs \<and> ?P (rs ! k)}"
  let ?g = "\<lambda>k. (ps ! k, the (item_request (new_request_item ev (ts ! k) (rs ! k))))"
  have inj: "inj_on ?g ?K"
    using assms(1,2) by (auto simp: inj_on_def nth_eq_iff_index_eq)
  have sub: "?g ` ?K \<subseteq> set (entries_with_id u items)"
  proof
    fix e
    assume "e \<in> ?g ` ?K"
    then obtain k where k: "k < length rs" "?P (rs ! k)" "e = ?g k"
      by auto
    obtain rq where rq: "item_request (new_request_item ev (ts ! k) (rs ! k)) = Some rq"
      using item_request_new_request_item [of ev "ts ! k" "rs ! k"] by auto
    from k(2) rq have "request_unique_id rq = Inr u"
      using new_request_item_unique_id [of "rs ! k" ev "ts ! k" rq] by simp
    moreover from assms(2,3) k(1) rq have "(ps ! k, rq) \<in> set (entries_dfs items)"
      by (auto simp: entries_dfs_iff)
    ultimately show "e \<in> set (entries_with_id u items)"
      using k(3) rq by (simp add: entries_with_id_def)
  qed
  have "length (filter ?P rs) = card ?K"
    by (rule length_filter_conv_card)
  also have "\<dots> = card (?g ` ?K)"
    using inj by (simp add: card_image)
  also have "\<dots> \<le> card (set (entries_with_id u items))"
    using sub by (intro card_mono) simp_all
  also have "\<dots> \<le> length (entries_with_id u items)"
    by (rule card_length)
  finally show ?thesis .
qed

lemma twice_steps:
  "merge_steps frozen_env [] [scenario_route, scenario_route] =
     Inr (twice_inserted, 3, (new_sync_result 0)\<lparr>routes_added := [scenario_route, scenario_route]\<rparr>)"
proof -
  have d: "route_description scenario_route = None"
    by (simp add: route_description_def scenario_route_def)
  show ?thesis
    by (simp add: merge_steps_def index_requests_def new_routes_def organize_by_folder_def
        scenario_folder_name ensure_folders_def new_folder_def add_request_def append_child_def
        new_sync_result_def d frozen_env_def twice_inserted_def numeral_2_eq_2 numeral_3_eq_3)
qed

lemma twice_expiry:
  "process_items frozen_env c twice_inserted = Inr (twice_inserted, [], [])"
proof -
  have keep: "deprecated_and_old frozen_env c (new_request_item frozen_env t scenario_route) = Inr None"
    for t
    by (simp add: scenario_new_item deprecated_and_old_def request_description_def
        sync_note_frozen_env deprecated_marker_def)
  have outer: "deprecated_and_old frozen_env c (Item (Some ''Auth'') None cs None None) = Inr None"
    for cs
    by (simp add: deprecated_and_old_def)
  show ?thesis
    by (simp add: twice_inserted_def outer keep process_items.simps)
qed

lemma twice_merge:
  "merge \<lparr>deprecation_days = 30\<rparr> frozen_env empty_collection [scenario_route, scenario_route] =
     (empty_collection\<lparr>coll_item := Some (ItemList twice_inserted)\<rparr>,
      Inr ((new_sync_result 0)\<lparr>routes_added := [scenario_route, scenario_route]\<rparr>))"
proof -
  have v: "validate_postman_collection empty_collection = Inr ()"
    by (simp add: validate_postman_collection_def empty_collection_def)
  have ci: "collection_items empty_collection = []"
    by (simp add: collection_items_def empty_collection_def)
  show ?thesis
    by (simp add: merge_def v ci twice_steps remove_old_deprecated_def twice_expiry
        new_sync_result_def)
qed

lemma scenario_new_id:
  "item_request (new_request_item frozen_env t scenario_route) = Some rq
     \<Longrightarrow> request_unique_id rq = Inr ''POST:/api/auth/token''"
  by (auto simp: scenario_new_item request_unique_id_def url_or_empty_def build_url_def)

text \<open>
  Claim C2, evaluated. The route \<open>POST /api/auth/token\<close>, whose identity is not in the
  empty collection, given twice: \<open>merge\<close> records both occurrences in \<open>routes_added\<close>,
  none in \<open>routes_updated\<close>, and the group \<open>Auth\<close> holds two entries with this identity.
\<close>

theorem duplicate_routes_two_entries:
  "index_requests (collection_items empty_collection) = Inr []
   \<and> unique_id scenario_route = ''POST:/api/auth/token''
   \<and> merge \<lparr>deprecation_days = 30\<rparr> frozen_env empty_collection [scenario_route, scenario_route] =
       (empty_collection\<lparr>coll_item := Some (ItemList twice_inserted)\<rparr>,
        Inr ((new_sync_result 0)\<lparr>routes_added := [scenario_route, scenario_route]\<rparr>))
   \<and> routes_updated ((new_sync_result 0)\<lparr>routes_added := [scenario_route, scenario_route]\<rparr>) = []
   \<and> map fst (entries_with_id ''POST:/api/auth/token'' twice_inserted) = [[0, 0], [0, 1]]"
proof -
  have ci: "collection_items empty_collection = []"
    by (simp add: collection_items_def empty_collection_def)
  have a: "index_requests (collection_items empty_collection) = Inr []"
    by (simp add: ci index_requests_def)
  have b: "unique_id scenario_route = ''POST:/api/auth/token''"
    by (simp add: unique_id_def scenario_route_def)
  have c: "routes_updated ((new_sync_result 0)\<lparr>routes_added := [scenario_route, scenario_route]\<rparr>) = []"
    by (simp add: new_sync_result_def)
  obtain rq1 where rq1: "item_request (new_request_item frozen_env (Suc 0) scenario_route) = Some rq1"
    using item_request_new_request_item [of frozen_env "Suc 0" scenario_route] by auto
  obtain rq2 where rq2: "item_request (new_request_item frozen_env 2 scenario_route) = Some rq2"
    using item_request_new_request_item [of frozen_env 2 scenario_route] by auto
  have "entries_dfs twice_inserted = [([0, 0], rq1), ([0, 1], rq2)]"
    by (simp add: entries_dfs_def twice_inserted_def rq1 rq2)
  then have d: "map fst (entries_with_id ''POST:/api/auth/token'' twice_inserted) = [[0, 0], [0, 1]]"
    by (simp add: entries_with_id_def scenario_new_id [OF rq1] scenario_new_id [OF rq2])
  from a b twice_merge c d show ?thesis
    by simp
qed

text \<open>
  Claim C2, as the code has it. The index is built once, before the loop, and insertions
  do not extend it: \<open>routes_added\<close> is the list of the occurrences of routes whose
  identity is not in the index, \<open>routes_updated\<close> that of the others. After the update,
  insertion and deprecation passes each occurrence recorded in \<open>routes_added\<close> has an
  entry of its own, built by \<open>_add_request\<close>, at a place that is new and different from
  the places of the other occurrences; so an identity that is not in the index has at
  least as many entries as the route list has routes with this identity and a
  normalised path. The expiry pass leaves the document as it is when it removes
  nothing.
\<close>

theorem duplicate_routes_each_inserted:
  assumes "merge m ev c routes = (c', Inr res)"
    and "index_requests (collection_items c) = Inr idx"
  shows "routes_added res = filter (\<lambda>r. map_of idx (unique_id r) = None) routes
       \<and> routes_updated res = filter (\<lambda>r. map_of idx (unique_id r) \<noteq> None) routes
       \<and> (\<exists>items3 t3 res3. merge_steps ev (collection_items c) routes = Inr (items3, t3, res3)
            \<and> (\<exists>ps ts. length ps = length (routes_added res) \<and> length ts = length ps
                  \<and> distinct ps
                  \<and> (\<forall>k < length ps. get_item (collection_items c) (ps ! k) = None
                        \<and> get_item items3 (ps ! k)
                           = Some (new_request_item ev (ts ! k) (routes_added res ! k))))
            \<and> (\<forall>u. map_of idx u = None \<longrightarrow>
                  length (filter (\<lambda>r. unique_id r = u
                            \<and> extract_path (build_url (full_path r)) = full_path r) routes)
                  \<le> length (entries_with_id u items3))
            \<and> (routes_removed res = [] \<longrightarrow> collection_items c' = items3))"
proof -
  from assms(1) obtain items3 t3 res3 out rm lg where
    st: "merge_steps ev (collection_items c) routes = Inr (items3, t3, res3)"
    and ex: "process_items ev (cutoff_date_at m ev t3) items3 = Inr (out, rm, lg)"
    and c': "c' = c\<lparr>coll_item := Some (ItemList out)\<rparr>"
    and res: "res = res3\<lparr>routes_removed := routes_removed res3 @ rm\<rparr>"
    by (rule merge_Inr)
  from merge_steps_new_entries [OF st assms(2)] obtain ps ts where
    r3: "routes_added res3 = new_routes idx routes"
      "routes_updated res3 = filter (\<lambda>r. map_of idx (unique_id r) \<noteq> None) routes"
      "routes_removed res3 = []"
    and ps: "length ps = length (new_routes idx routes)" "length ts = length ps" "distinct ps"
      "\<forall>k < length ps. get_item (collection_items c) (ps ! k) = None
         \<and> get_item items3 (ps ! k) = Some (new_request_item ev (ts ! k) (new_routes idx routes ! k))"
    by blast
  have added: "routes_added res = filter (\<lambda>r. map_of idx (unique_id r) = None) routes"
    and updated: "routes_updated res = filter (\<lambda>r. map_of idx (unique_id r) \<noteq> None) routes"
    using r3 res by (simp_all add: new_routes_def)
  have places: "\<exists>ps ts. length ps = length (routes_added res) \<and> length ts = length ps
                  \<and> distinct ps
                  \<and> (\<forall>k < length ps. get_item (collection_items c) (ps ! k) = None
                        \<and> get_item items3 (ps ! k)
                           = Some (new_request_item ev (ts ! k) (routes_added res ! k)))"
    using ps added by (intro exI [of _ ps] exI [of _ ts]) (simp add: new_routes_def)
  have count: "\<forall>u. map_of idx u = None \<longrightarrow>
                  length (filter (\<lambda>r. unique_id r = u
                            \<and> extract_path (build_url (full_path r)) = full_path r) routes)
                  \<le> length (entries_with_id u items3)"
  proof (intro allI impI)
    fix u
    assume u: "map_of idx u = None"
    have "filter (\<lambda>r. unique_id r = u
              \<and> extract_path (build_url (full_path r)) = full_path r) (new_routes idx routes)
        = filter (\<lambda>r. unique_id r = u
              \<and> extract_path (build_url (full_path r)) = full_path r) routes"
      using u by (auto simp: new_routes_def intro: filter_cong)
    moreover from ps(4) have "\<forall>k < length ps. get_item items3 (ps ! k)
        = Some (new_request_item ev (ts ! k) (new_routes idx routes ! k))"
      by simp
    from count_new_entries [OF ps(3) ps(1) this, of u]
    have "length (filter (\<lambda>r. unique_id r = u
              \<and> extract_path (build_url (full_path r)) = full_path r) (new_routes idx routes))
         \<le> length (entries_with_id u items3)" .
    ultimately show "length (filter (\<lambda>r. unique_id r = u
                            \<and> extract_path (build_url (full_path r)) = full_path r) routes)
                  \<le> length (entries_with_id u items3)"
      by simp
  qed
  have kept: "routes_removed res = [] \<longrightarrow> collection_items c' = items3"
  proof
    assume "routes_removed res = []"
    with res r3(3) have "rm = []"
      by simp
    with ex process_items_nothing_removed [of ev "cutoff_date_at m ev t3" items3 out lg]
    show "collection_items c' = items3"
      by (simp add: c')
  qed
  from added updated st places count kept show ?thesis
    by (intro conjI exI [of _ items3] exI [of _ t3] exI [of _ res3]) assumption+
qed

theorem duplicate_routes_each_inserted_witness:
  "merge \<lparr>deprecation_days = 30\<rparr> frozen_env empty_collection [scenario_route, scenario_route] =
       (empty_collection\<lparr>coll_item := Some (ItemList twice_inserted)\<rparr>,
        Inr ((new_sync_result 0)\<lparr>routes_added := [scenario_route, scenario_route]\<rparr>))
   \<and> index_requests (collection_items empty_collection) = Inr []
   \<and> filter (\<lambda>r. map_of ([] :: index) (unique_id r) = None) [scenario_route, scenario_route]
       = [scenario_route, scenario_route]
   \<and> 2 \<le> length (entries_with_id (unique_id scenario_route) twice_inserted)"
proof -
  let ?res = "(new_sync_result 0)\<lparr>routes_added := [scenario_route, scenario_route]\<rparr>"
  let ?P = "\<lambda>r. unique_id r = unique_id scenario_route
      \<and> extract_path (build_url (full_path r)) = full_path r"
  have ci: "collection_items empty_collection = []"
    by (simp add: collection_items_def empty_collection_def)
  have a: "index_requests (collection_items empty_collection) = Inr []"
    by (simp add: ci index_requests_def)
  have n: "extract_path (build_url (full_path scenario_route)) = full_path scenario_route"
    by (simp add: scenario_route_def build_url_def)
  have rr: "routes_removed ?res = []"
    by (simp add: new_sync_result_def)
  from duplicate_routes_each_inserted [OF twice_merge a]
  obtain items3 where
    cnt: "\<forall>u. map_of ([] :: index) u = None \<longrightarrow>
            length (filter (\<lambda>r. unique_id r = u
                      \<and> extract_path (build_url (full_path r)) = full_path r)
                    [scenario_route, scenario_route])
            \<le> length (entries_with_id u items3)"
    and same: "routes_removed ?res = [] \<longrightarrow>
      collection_items (empty_collection\<lparr>coll_item := Some (ItemList twice_inserted)\<rparr>) = items3"
    by blast
  from same rr have "items3 = twice_inserted"
    by simp
  with cnt [rule_format, of "unique_id scenario_route"]
  have "length (filter ?P [scenario_route, scenario_route])
      \<le> length (entries_with_id (unique_id scenario_route) twice_inserted)"
    by simp
  with n have "2 \<le> length (entries_with_id (unique_id scenario_route) twice_inserted)"
    by simp
  with twice_merge a show ?thesis
    by simp
qed

end
